theory Spec2Isabelle
  imports Main "HOL-Library.AList"
begin

section \<open>The Mosca server (lib/server.js) as an event-driven state machine\<close>

text \<open>
  The server runs on a single-threaded event loop. Every piece of JavaScript that runs to
  completion (a packet handler, a timer callback, a \<open>process.nextTick\<close> callback, a call
  of the public \<open>close\<close>) is one step of the model. Closures are defunctionalised: each
  function value that the source creates is a constructor that records the variables it
  captures. A thrown exception is the \<open>Inl\<close> branch of the result and carries the state at
  the point of the throw, since the mutations made before it persist.

  What the file calls and does not define is modelled by its contract:
  \<^item> \<open>async.parallel(tasks, done)\<close> calls the tasks in order, each with a callback, and
    calls \<open>done\<close> when that callback has been called once per task, or at once when there
    is no task; an exception thrown by a task reaches the caller of \<open>parallel\<close>;
  \<^item> the Topic Bus calls the completion callback of a subscribe or unsubscribe request
    later, once and without an error;
  \<^item> the listener throws from \<open>close\<close> when it is not running, and otherwise stops and
    calls the callback, if given, when it emits \<open>close\<close>;
  \<^item> \<open>setTimeout\<close> returns a fresh handle and its function runs no earlier than the delay,
    unless \<open>clearTimeout\<close> has cancelled it; \<open>process.nextTick\<close> callbacks run in order;
  \<^item> an object used as a dictionary (\<open>this.clients\<close>) has the semantics of a JavaScript
    object: \<open>Object.keys\<close> lists the keys that are array indices first, in ascending
    order, and then the other keys in the order of their insertion; an assignment to the
    key \<open>__proto__\<close> sets the prototype and creates no key; a lookup that finds no key
    of the object itself yields nothing that is a client (\<open>undefined\<close>, or a value
    inherited from the prototype, which has no \<open>stream\<close>), and \<open>closeConn\<close> raises a
    TypeError on it before it changes anything;
  \<^item> an \<open>error\<close> event on a connection without handlers is thrown by the emitter;
  \<^item> replies to the codec and notifications to the host application are recorded in a
    trace; they do not call back into the server.
\<close>

subsection \<open>Data\<close>

type_synonym cref = nat   \<comment> \<open>reference to a client (connection) object\<close>
type_synonym handle = nat \<comment> \<open>timer handle returned by \<open>setTimeout\<close>\<close>
type_synonym jid = nat    \<comment> \<open>identity of one \<open>async.parallel\<close> call\<close>
type_synonym ucb = nat    \<comment> \<open>a callback function supplied by the host application\<close>

text \<open>
  The fields that \<open>serve\<close> and \<open>closeConn\<close> read and write on a client object.
  \<open>client_id\<close>, \<open>keepalive\<close> and \<open>timer\<close> are \<open>undefined\<close> (\<open>None\<close>) until assigned.
  \<open>stream_ended\<close> records \<open>client.stream.end()\<close>; \<open>listeners\<close> says whether the handlers
  installed by \<open>serve\<close> are still attached (\<open>removeAllListeners\<close> detaches all of them).
\<close>

record client =
  client_id :: "string option"
  keepalive :: "nat option"
  timer :: "handle option"
  stream_ended :: bool
  listeners :: bool

definition new_client :: client where
  "new_client = \<lparr>client_id = None, keepalive = None, timer = None,
                  stream_ended = False, listeners = False\<rparr>"

text \<open>The packet events delivered by the codec, with the fields the handlers read.\<close>

datatype packet =
    Connect string nat                  \<comment> \<open>\<open>packet.client\<close>, \<open>packet.keepalive\<close>\<close>
  | Pingreq
  | Subscribe "(string \<times> nat) list" nat  \<comment> \<open>\<open>packet.subscriptions\<close> (topic, qos), \<open>packet.messageId\<close>\<close>
  | Publish string string               \<comment> \<open>\<open>packet.topic\<close>, \<open>packet.payload\<close>\<close>
  | Unsubscribe "string list" nat       \<comment> \<open>\<open>packet.unsubscriptions\<close>, \<open>packet.messageId\<close>\<close>
  | Disconnect
  | ErrorEvent

text \<open>Everything the server does to the outside world, in the order it does it.\<close>

datatype action =
    Connack cref nat
  | Pingresp cref
  | Suback cref nat "nat list"
  | Unsuback cref nat
  | BusSubscribe string cref
  | BusUnsubscribe string cref
  | BusPublish string string
  | StreamEnd cref
  | EmitClientConnected cref
  | EmitClientDisconnected cref
  | EmitPublished cref string string
  | ListenerStop
  | Called ucb

text \<open>
  Function values. \<open>JoinCb j\<close> is the \<open>cb\<close> that \<open>async.parallel\<close> hands to each task of
  its \<open>j\<close>-th call; \<open>UserCb k\<close> is a function of the host application.
\<close>

datatype callback = JoinCb jid | UserCb ucb

text \<open>The three task closures and the three completion closures passed to \<open>async.parallel\<close>.\<close>

datatype task =
    TSubscribe string cref     \<comment> \<open>\<open>ascoltatore.subscribe(s.topic, forward, cb)\<close>\<close>
  | TUnsubscribe string cref   \<comment> \<open>\<open>ascoltatore.unsubscribe(topic, forward, cb)\<close>\<close>
  | TCloseConn string          \<comment> \<open>\<open>that.closeConn(that.clients[id], cb)\<close>\<close>

datatype final =
    FSuback cref nat "nat list"  \<comment> \<open>\<open>client.suback({messageId, granted})\<close>\<close>
  | FUnsuback cref nat           \<comment> \<open>\<open>client.unsuback({messageId})\<close>\<close>
  | FClose "ucb option"          \<comment> \<open>\<open>try { that.server.close(callback) } catch (e) { callback() }\<close>\<close>

record timer_entry =
  owner :: cref            \<comment> \<open>the client captured by the timeout function\<close>
  armed :: nat             \<comment> \<open>time of the \<open>setTimeout\<close> call, in ms\<close>
  delay :: "nat option"    \<comment> \<open>the delay in ms; \<open>None\<close> is NaN\<close>

datatype error = TypeError | NotRunning | UnhandledError

text \<open>
  \<open>clients\<close> is \<open>this.clients\<close>, an object used as a dictionary: the association list of
  its own keys, in the order of their insertion. \<open>timers\<close>, \<open>tickq\<close> and \<open>now\<close>
  belong to the event loop, \<open>joins\<close> to the async library (the counter and completion
  function of every \<open>parallel\<close> call still running), \<open>bus_pending\<close> to the Topic Bus
  (the completion callbacks it has yet to call), \<open>listening\<close> and \<open>close_waiters\<close> to the
  listener (\<open>this.server\<close>).
\<close>

record state =
  clients :: "(string \<times> cref) list"
  heap :: "cref \<Rightarrow> client"
  next_ref :: cref
  timers :: "handle \<Rightarrow> timer_entry option"
  next_handle :: handle
  joins :: "jid \<Rightarrow> (nat \<times> final) option"
  next_join :: jid
  tickq :: "callback list"
  bus_pending :: "callback list"
  listening :: bool
  close_waiters :: "ucb list"
  now :: nat
  trace :: "action list"

type_synonym result = "(error \<times> state) + state"

definition init :: state where
  "init = \<lparr>clients = [], heap = (\<lambda>_. new_client), next_ref = 0,
           timers = (\<lambda>_. None), next_handle = 0,
           joins = (\<lambda>_. None), next_join = 0,
           tickq = [], bus_pending = [], listening = True, close_waiters = [],
           now = 0, trace = []\<rparr>"

definition emit :: "action \<Rightarrow> state \<Rightarrow> state" where
  "emit x s = s\<lparr>trace := trace s @ [x]\<rparr>"

definition upd_client :: "cref \<Rightarrow> (client \<Rightarrow> client) \<Rightarrow> state \<Rightarrow> state" where
  "upd_client c f s = s\<lparr>heap := (heap s)(c := f (heap s c))\<rparr>"

definition final_state :: "result \<Rightarrow> state" where
  "final_state r = (case r of Inl (e, s) \<Rightarrow> s | Inr s \<Rightarrow> s)"

definition raised :: "result \<Rightarrow> error option" where
  "raised r = (case r of Inl (e, s) \<Rightarrow> Some e | Inr s \<Rightarrow> None)"

subsection \<open>The registry object\<close>

text \<open>
  An array index is the canonical decimal numeral of a number below \<open>2^32 - 1\<close>: digits
  only, no leading zero except for \<open>0\<close> itself.
\<close>

definition is_digit :: "char \<Rightarrow> bool" where
  "is_digit ch \<longleftrightarrow> ch \<in> set ''0123456789''"

definition digits_value :: "string \<Rightarrow> nat" where
  "digits_value k = foldl (\<lambda>n ch. 10 * n + (of_char ch - 48)) 0 k"

definition array_index :: "string \<Rightarrow> nat option" where
  "array_index k =
     (case k of
        [] \<Rightarrow> None
      | ch # rest \<Rightarrow>
          if list_all is_digit k \<and> (ch \<noteq> CHR ''0'' \<or> rest = []) \<and> digits_value k < 4294967295
          then Some (digits_value k) else None)"

definition index_value :: "string \<Rightarrow> nat" where
  "index_value k = (case array_index k of None \<Rightarrow> 0 | Some n \<Rightarrow> n)"

text \<open>
  \<open>Object.keys(obj)\<close>: the array indices in ascending order, then the other keys in the
  order of their insertion.
\<close>

definition object_keys :: "(string \<times> 'v) list \<Rightarrow> string list" where
  "object_keys obj =
     sort_key index_value [k \<leftarrow> map fst obj. array_index k \<noteq> None] @
     [k \<leftarrow> map fst obj. array_index k = None]"

text \<open>
  \<open>obj[k] = v\<close>: the key \<open>__proto__\<close> sets the prototype of the object and creates no key;
  any other key is written in place or added at the end. \<open>delete obj[k]\<close> is
  \<open>AList.delete\<close>, which changes nothing when the object has no such key, and \<open>obj[k]\<close>
  for a key of the object is \<open>map_of\<close>.
\<close>

definition obj_put :: "string \<Rightarrow> 'v \<Rightarrow> (string \<times> 'v) list \<Rightarrow> (string \<times> 'v) list" where
  "obj_put k v obj = (if k = ''__proto__'' then obj else AList.update k v obj)"

subsection \<open>Timers\<close>

text \<open>
  \<open>client.keepalive * 1000 * 5/4\<close>. For a number \<open>k\<close> the product \<open>k * 1000 * 5\<close> is a
  multiple of 4, so the division is exact; for \<open>undefined\<close> the result is NaN.
\<close>

definition timeout_ms :: "nat option \<Rightarrow> nat option" where
  "timeout_ms ka = (case ka of None \<Rightarrow> None | Some k \<Rightarrow> Some (k * 1000 * 5 div 4))"

definition clearTimeout :: "handle option \<Rightarrow> state \<Rightarrow> state" where
  "clearTimeout ho s = (case ho of None \<Rightarrow> s | Some h \<Rightarrow> s\<lparr>timers := (timers s)(h := None)\<rparr>)"

definition setTimeout :: "cref \<Rightarrow> nat option \<Rightarrow> state \<Rightarrow> state" where
  "setTimeout c d s =
     s\<lparr>timers := (timers s)(next_handle s \<mapsto> \<lparr>owner = c, armed = now s, delay = d\<rparr>),
       next_handle := Suc (next_handle s)\<rparr>"

definition setUpTimer :: "cref \<Rightarrow> state \<Rightarrow> state" where
  "setUpTimer c s =
     (let s1 = (if timer (heap s c) \<noteq> None then clearTimeout (timer (heap s c)) s else s);
          h = next_handle s1;
          s2 = setTimeout c (timeout_ms (keepalive (heap s1 c))) s1
      in upd_client c (\<lambda>cl. cl\<lparr>timer := Some h\<rparr>) s2)"

text \<open>
  A timeout may run once its delay has passed. For a NaN delay the runtime substitutes
  its smallest delay; the model lets such a timer run at once.
\<close>

definition due :: "nat \<Rightarrow> timer_entry \<Rightarrow> bool" where
  "due t e = (case delay e of None \<Rightarrow> True | Some d \<Rightarrow> armed e + d \<le> t)"

subsection \<open>\<open>next\<close> and \<open>closeConn\<close>\<close>

text \<open>
  \<open>next\<close> defers the callback, if there is one, with \<open>process.nextTick\<close>. In \<open>closeConn\<close>
  the test \<open>if(client.id)\<close> is false for \<open>undefined\<close> and for the empty string.
\<close>

definition "next" :: "callback option \<Rightarrow> state \<Rightarrow> state" where
  "next cbo s = (case cbo of None \<Rightarrow> s | Some cb \<Rightarrow> s\<lparr>tickq := tickq s @ [cb]\<rparr>)"

definition closeConn :: "cref \<Rightarrow> callback option \<Rightarrow> state \<Rightarrow> state" where
  "closeConn c cbo s =
     (let s1 = (case client_id (heap s c) of
                  None \<Rightarrow> s
                | Some x \<Rightarrow>
                    if x = [] then s
                    else (let s' = clearTimeout (timer (heap s c)) s
                          in s'\<lparr>clients := AList.delete x (clients s')\<rparr>));
          s2 = emit (StreamEnd c) (upd_client c (\<lambda>cl. cl\<lparr>stream_ended := True\<rparr>) s1);
          s3 = upd_client c (\<lambda>cl. cl\<lparr>listeners := False\<rparr>) s2;
          s4 = next cbo s3
      in emit (EmitClientDisconnected c) s4)"

subsection \<open>The listener and the completion functions\<close>

text \<open>
  \<open>that.server.close(callback)\<close>: a listener that is not running throws; a running one
  stops and keeps the callback, if given, for its \<open>close\<close> event.
\<close>

definition server_close :: "ucb option \<Rightarrow> state \<Rightarrow> result" where
  "server_close cbo s =
     (if \<not> listening s then Inl (NotRunning, s)
      else Inr (emit ListenerStop
             (s\<lparr>listening := False,
                close_waiters := close_waiters s @ (case cbo of None \<Rightarrow> [] | Some k \<Rightarrow> [k])\<rparr>)))"

text \<open>Calling \<open>callback()\<close>: a TypeError when \<open>callback\<close> is \<open>undefined\<close>.\<close>

definition call_user :: "ucb option \<Rightarrow> state \<Rightarrow> result" where
  "call_user cbo s = (case cbo of None \<Rightarrow> Inl (TypeError, s) | Some k \<Rightarrow> Inr (emit (Called k) s))"

fun run_final :: "final \<Rightarrow> state \<Rightarrow> result" where
  "run_final (FSuback c mid granted) s = Inr (emit (Suback c mid granted) s)"
| "run_final (FUnsuback c mid) s = Inr (emit (Unsuback c mid) s)"
| "run_final (FClose cbo) s =
     (case server_close cbo s of
        Inr s' \<Rightarrow> Inr s'
      | Inl (e, s') \<Rightarrow> call_user cbo s')"

subsection \<open>\<open>async.parallel\<close>\<close>

text \<open>
  The library counts the calls of the task callback and calls the completion function
  when the count reaches the number of tasks; with no task it calls it at once. The
  model keeps the number of calls still missing and drops a join that has completed, so
  that later calls of its callback do nothing.
\<close>

definition join_done :: "jid \<Rightarrow> state \<Rightarrow> result" where
  "join_done j s =
     (case joins s j of
        None \<Rightarrow> Inr s
      | Some (n, fin) \<Rightarrow>
          if n \<le> 1 then run_final fin (s\<lparr>joins := (joins s)(j := None)\<rparr>)
          else Inr (s\<lparr>joins := (joins s)(j \<mapsto> (n - 1, fin))\<rparr>))"

definition invoke :: "callback \<Rightarrow> state \<Rightarrow> result" where
  "invoke cb s = (case cb of JoinCb j \<Rightarrow> join_done j s | UserCb k \<Rightarrow> Inr (emit (Called k) s))"

text \<open>
  The Topic Bus records the request and calls \<open>cb\<close> later, once, without an error.
\<close>

definition bus_call :: "action \<Rightarrow> callback \<Rightarrow> state \<Rightarrow> state" where
  "bus_call x cb s = (emit x s)\<lparr>bus_pending := bus_pending s @ [cb]\<rparr>"

fun run_task :: "task \<Rightarrow> callback \<Rightarrow> state \<Rightarrow> result" where
  "run_task (TSubscribe topic c) cb s = Inr (bus_call (BusSubscribe topic c) cb s)"
| "run_task (TUnsubscribe topic c) cb s = Inr (bus_call (BusUnsubscribe topic c) cb s)"
| "run_task (TCloseConn k) cb s =
     (case map_of (clients s) k of
        None \<Rightarrow> Inl (TypeError, s)
      | Some c \<Rightarrow> Inr (closeConn c (Some cb) s))"

fun run_tasks :: "task list \<Rightarrow> callback \<Rightarrow> state \<Rightarrow> result" where
  "run_tasks [] cb s = Inr s"
| "run_tasks (t # ts) cb s =
     (case run_task t cb s of Inl e \<Rightarrow> Inl e | Inr s' \<Rightarrow> run_tasks ts cb s')"

definition parallel :: "task list \<Rightarrow> final \<Rightarrow> state \<Rightarrow> result" where
  "parallel tasks fin s =
     (if tasks = [] then run_final fin s
      else run_tasks tasks (JoinCb (next_join s))
             (s\<lparr>joins := (joins s)(next_join s \<mapsto> (length tasks, fin)),
                next_join := Suc (next_join s)\<rparr>))"

subsection \<open>\<open>Server.prototype.close\<close> and \<open>Server.prototype.serve\<close>\<close>

definition close :: "ucb option \<Rightarrow> state \<Rightarrow> result" where
  "close cbo s = parallel (map TCloseConn (object_keys (clients s))) (FClose cbo) s"

definition on_connect :: "cref \<Rightarrow> string \<Rightarrow> nat \<Rightarrow> state \<Rightarrow> state" where
  "on_connect c cid ka s =
     (let s1 = upd_client c (\<lambda>cl. cl\<lparr>client_id := Some cid, keepalive := Some ka\<rparr>) s;
          s2 = s1\<lparr>clients := obj_put cid c (clients s1)\<rparr>;
          s3 = setUpTimer c s2;
          s4 = emit (Connack c 0) s3
      in emit (EmitClientConnected c) s4)"

definition on_pingreq :: "cref \<Rightarrow> state \<Rightarrow> state" where
  "on_pingreq c s = emit (Pingresp c) (setUpTimer c s)"

definition on_subscribe :: "cref \<Rightarrow> (string \<times> nat) list \<Rightarrow> nat \<Rightarrow> state \<Rightarrow> result" where
  "on_subscribe c subs mid s =
     (let granted = map (\<lambda>e. 0) subs
      in parallel (map (\<lambda>e. TSubscribe (fst e) c) subs) (FSuback c mid granted) s)"

definition on_publish :: "cref \<Rightarrow> string \<Rightarrow> string \<Rightarrow> state \<Rightarrow> state" where
  "on_publish c topic payload s =
     emit (EmitPublished c topic payload) (emit (BusPublish topic payload) s)"

definition on_unsubscribe :: "cref \<Rightarrow> string list \<Rightarrow> nat \<Rightarrow> state \<Rightarrow> result" where
  "on_unsubscribe c topics mid s =
     parallel (map (\<lambda>topic. TUnsubscribe topic c) topics) (FUnsuback c mid) s"

text \<open>The handler that \<open>serve\<close> attaches for each packet event.\<close>

fun handler :: "cref \<Rightarrow> packet \<Rightarrow> state \<Rightarrow> result" where
  "handler c (Connect cid ka) s = Inr (on_connect c cid ka s)"
| "handler c Pingreq s = Inr (on_pingreq c s)"
| "handler c (Subscribe subs mid) s = on_subscribe c subs mid s"
| "handler c (Publish topic payload) s = Inr (on_publish c topic payload s)"
| "handler c (Unsubscribe topics mid) s = on_unsubscribe c topics mid s"
| "handler c Disconnect s = Inr (closeConn c None s)"
| "handler c ErrorEvent s = Inr (closeConn c None s)"

text \<open>
  \<open>serve\<close> on a newly accepted connection: a fresh client object with every handler
  attached.
\<close>

definition serve :: "state \<Rightarrow> state" where
  "serve s = s\<lparr>heap := (heap s)(next_ref s := new_client\<lparr>listeners := True\<rparr>),
               next_ref := Suc (next_ref s)\<rparr>"

subsection \<open>The event loop\<close>

datatype event =
    Accept                 \<comment> \<open>the listener hands a new connection to \<open>serve\<close>\<close>
  | Packet cref packet     \<comment> \<open>the codec emits a packet event on a connection\<close>
  | TimerFire handle       \<comment> \<open>a timeout runs\<close>
  | Tick                   \<comment> \<open>the first \<open>process.nextTick\<close> callback runs\<close>
  | BusDone nat            \<comment> \<open>the Topic Bus calls one of its pending completion callbacks\<close>
  | ListenerClosed         \<comment> \<open>the stopped listener emits \<open>close\<close>\<close>
  | Close "ucb option"     \<comment> \<open>the host application calls \<open>close\<close>\<close>
  | Elapse nat             \<comment> \<open>time passes\<close>

text \<open>
  A packet event runs the handler that is attached for it. Without handlers nothing
  runs, except that the emitter throws an \<open>error\<close> event that nobody handles.
\<close>

definition deliver :: "cref \<Rightarrow> packet \<Rightarrow> state \<Rightarrow> result" where
  "deliver c p s =
     (if listeners (heap s c) then handler c p s
      else if p = ErrorEvent then Inl (UnhandledError, s) else Inr s)"

definition timer_fire :: "handle \<Rightarrow> state \<Rightarrow> state" where
  "timer_fire h s =
     (case timers s h of
        None \<Rightarrow> s
      | Some e \<Rightarrow> if due (now s) e
                  then closeConn (owner e) None (s\<lparr>timers := (timers s)(h := None)\<rparr>)
                  else s)"

definition tick :: "state \<Rightarrow> result" where
  "tick s = (case tickq s of [] \<Rightarrow> Inr s | cb # q \<Rightarrow> invoke cb (s\<lparr>tickq := q\<rparr>))"

definition bus_done :: "nat \<Rightarrow> state \<Rightarrow> result" where
  "bus_done i s =
     (if i < length (bus_pending s)
      then invoke (bus_pending s ! i)
             (s\<lparr>bus_pending := take i (bus_pending s) @ drop (Suc i) (bus_pending s)\<rparr>)
      else Inr s)"

definition listener_closed :: "state \<Rightarrow> state" where
  "listener_closed s =
     (if listening s then s
      else s\<lparr>close_waiters := [], trace := trace s @ map Called (close_waiters s)\<rparr>)"

fun step :: "state \<Rightarrow> event \<Rightarrow> result" where
  "step s Accept = Inr (if listening s then serve s else s)"
| "step s (Packet c p) = deliver c p s"
| "step s (TimerFire h) = Inr (timer_fire h s)"
| "step s Tick = tick s"
| "step s (BusDone i) = bus_done i s"
| "step s ListenerClosed = Inr (listener_closed s)"
| "step s (Close cbo) = close cbo s"
| "step s (Elapse d) = Inr (s\<lparr>now := now s + d\<rparr>)"

text \<open>A run stops at the first exception.\<close>

fun run :: "state \<Rightarrow> event list \<Rightarrow> result" where
  "run s [] = Inr s"
| "run s (e # es) = (case step s e of Inl x \<Rightarrow> Inl x | Inr s' \<Rightarrow> run s' es)"

text \<open>
  The reachable states. A state left behind by an exception is reachable as well: the
  caller of \<open>close\<close> or an \<open>uncaughtException\<close> handler may catch it and go on.
\<close>

inductive reachable :: "state \<Rightarrow> bool" where
  reachable_init: "reachable init"
| reachable_step: "reachable s \<Longrightarrow> reachable (final_state (step s e))"

subsection \<open>Notions used in the statements\<close>

text \<open>
  \<open>completions k j\<close>: the callback of join \<open>j\<close> is called \<open>k\<close> times, which is what
  \<open>k\<close> of its tasks completing amounts to.
\<close>

fun completions :: "nat \<Rightarrow> jid \<Rightarrow> state \<Rightarrow> result" where
  "completions 0 j s = Inr s"
| "completions (Suc k) j s =
     (case join_done j s of Inl x \<Rightarrow> Inl x | Inr s' \<Rightarrow> completions k j s')"

text \<open>
  Well-formed states: the keys of the registry are distinct and \<open>__proto__\<close> is none of
  them; a pending timeout belongs to
  an allocated client that holds its handle; handles held by clients are allocated and
  are not shared; only allocated clients have handlers attached.
\<close>

definition state_ok :: "state \<Rightarrow> bool" where
  "state_ok s \<longleftrightarrow>
     distinct (map fst (clients s)) \<and> ''__proto__'' \<notin> fst ` set (clients s) \<and>
     (\<forall>h e. timers s h = Some e \<longrightarrow>
        h < next_handle s \<and> owner e < next_ref s \<and> timer (heap s (owner e)) = Some h) \<and>
     (\<forall>c h. timer (heap s c) = Some h \<longrightarrow> h < next_handle s) \<and>
     (\<forall>c c' h. timer (heap s c) = Some h \<longrightarrow> timer (heap s c') = Some h \<longrightarrow> c = c') \<and>
     (\<forall>c. listeners (heap s c) \<longrightarrow> c < next_ref s)"

text \<open>Two states that agree on the registry, the client objects and the timers.\<close>

definition same_core :: "state \<Rightarrow> state \<Rightarrow> bool" where
  "same_core s s' \<longleftrightarrow>
     clients s' = clients s \<and> heap s' = heap s \<and> next_ref s' = next_ref s \<and>
     timers s' = timers s \<and> next_handle s' = next_handle s \<and> now s' = now s"

text \<open>
  A registry in which every entry is keyed by the id its client has now.
\<close>

definition registry_ok :: "state \<Rightarrow> bool" where
  "registry_ok s \<longleftrightarrow>
     distinct (map fst (clients s)) \<and>
     (\<forall>(k, c) \<in> set (clients s). client_id (heap s c) = Some k)"

section \<open>Properties\<close>

subsection \<open>Runs and their evaluation\<close>

text \<open>
  Every state of a run is reachable. The events by which the Topic Bus and the tick queue
  call the callback of a join are calls of \<open>join_done\<close>.
\<close>

lemma bus_done_join:
  "i < length (bus_pending s) \<Longrightarrow> bus_pending s ! i = JoinCb j \<Longrightarrow>
   step s (BusDone i) =
     join_done j (s\<lparr>bus_pending := take i (bus_pending s) @ drop (Suc i) (bus_pending s)\<rparr>)"
  by (simp add: bus_done_def invoke_def)

lemma tick_join:
  "tickq s = JoinCb j # q \<Longrightarrow> step s Tick = join_done j (s\<lparr>tickq := q\<rparr>)"
  by (simp add: tick_def invoke_def)

lemma reachable_run: "reachable s \<Longrightarrow> reachable (final_state (run s es))"
proof (induction es arbitrary: s)
  case Nil
  then show ?case by (simp add: final_state_def)
next
  case (Cons e es)
  from Cons.prems have r: "reachable (final_state (step s e))" by (rule reachable_step)
  show ?case
  proof (cases "step s e")
    case (Inl x)
    with r show ?thesis by simp
  next
    case (Inr s')
    with r have "reachable s'" by (simp add: final_state_def)
    with Inr Cons.IH show ?thesis by simp
  qed
qed

lemmas eval_defs = init_def serve_def deliver_def on_connect_def on_pingreq_def on_publish_def
  on_subscribe_def on_unsubscribe_def upd_client_def setUpTimer_def setTimeout_def
  clearTimeout_def timeout_ms_def emit_def final_state_def raised_def new_client_def Let_def
  closeConn_def next_def timer_fire_def due_def tick_def bus_done_def listener_closed_def
  close_def parallel_def join_done_def invoke_def bus_call_def server_close_def call_user_def
  obj_put_def object_keys_def array_index_def index_value_def digits_value_def is_digit_def

subsection \<open>Subscribe: one acknowledgment, after every registration\<close>

lemma run_tasks_subscribe:
  "run_tasks (map (\<lambda>e. TSubscribe (fst e) c) subs) cb s =
     Inr (s\<lparr>trace := trace s @ map (\<lambda>e. BusSubscribe (fst e) c) subs,
            bus_pending := bus_pending s @ replicate (length subs) cb\<rparr>)"
proof (induction subs arbitrary: s)
  case Nil
  show ?case by simp
next
  case (Cons e subs)
  show ?case
    by (simp add: Cons.IH bus_call_def emit_def replicate_append_same)
qed

lemma completions_pending:
  "joins s j = Some (m, FSuback c R g) \<Longrightarrow> k < m \<Longrightarrow>
   \<exists>s'. completions k j s = Inr s' \<and> trace s' = trace s \<and>
        joins s' j = Some (m - k, FSuback c R g)"
proof (induction k arbitrary: s m)
  case 0
  then show ?case by simp
next
  case (Suc k)
  let ?s1 = "s\<lparr>joins := (joins s)(j \<mapsto> (m - 1, FSuback c R g))\<rparr>"
  from Suc.prems have jd: "join_done j s = Inr ?s1"
    by (simp add: join_done_def)
  have "joins ?s1 j = Some (m - 1, FSuback c R g)" by simp
  moreover from Suc.prems have "k < m - 1" by simp
  ultimately obtain s' where "completions k j ?s1 = Inr s'" "trace s' = trace ?s1"
    "joins s' j = Some (m - 1 - k, FSuback c R g)"
    using Suc.IH by blast
  with jd show ?case by simp
qed

lemma completions_gone:
  "joins s j = None \<Longrightarrow> completions k j s = Inr s"
  by (induction k) (simp_all add: join_done_def)

lemma completions_finished:
  "joins s j = Some (m, FSuback c R g) \<Longrightarrow> 0 < m \<Longrightarrow> m \<le> k \<Longrightarrow>
   \<exists>s'. completions k j s = Inr s' \<and> trace s' = trace s @ [Suback c R g] \<and> joins s' j = None"
proof (induction k arbitrary: s m)
  case 0
  then show ?case by simp
next
  case (Suc k)
  show ?case
  proof (cases "m \<le> 1")
    case True
    let ?s1 = "emit (Suback c R g) (s\<lparr>joins := (joins s)(j := None)\<rparr>)"
    from Suc.prems True have jd: "join_done j s = Inr ?s1"
      by (simp add: join_done_def)
    have "joins ?s1 j = None" by (simp add: emit_def)
    then have "completions k j ?s1 = Inr ?s1" by (rule completions_gone)
    with jd show ?thesis by (simp add: emit_def)
  next
    case False
    let ?s1 = "s\<lparr>joins := (joins s)(j \<mapsto> (m - 1, FSuback c R g))\<rparr>"
    from Suc.prems False have jd: "join_done j s = Inr ?s1"
      by (simp add: join_done_def)
    have "joins ?s1 j = Some (m - 1, FSuback c R g)" by simp
    moreover from Suc.prems False have "0 < m - 1" "m - 1 \<le> k" by simp_all
    ultimately obtain s' where "completions k j ?s1 = Inr s'"
      "trace s' = trace ?s1 @ [Suback c R g]" "joins s' j = None"
      using Suc.IH by blast
    with jd show ?thesis by simp
  qed
qed

text \<open>
  Claim C1. A subscribe packet with \<open>n\<close> entries and message id \<open>R\<close>, handled on a
  connection whose handlers are attached, asks the Topic Bus for the \<open>n\<close> registrations in
  the order of the packet. With \<open>n = 0\<close> the acknowledgment \<open>Suback c R []\<close> is sent at
  once. Otherwise nothing is sent while fewer than \<open>n\<close> registrations have completed, and
  from the \<open>n\<close>-th completion on the trace holds exactly one acknowledgment, with message
  id \<open>R\<close> and the granted list of \<open>n\<close> zeros.
\<close>

theorem subscribe_suback:
  assumes "listeners (heap s c)"
  shows "\<exists>s1. deliver c (Subscribe subs R) s = Inr s1 \<and>
     (subs = [] \<longrightarrow> trace s1 = trace s @ [Suback c R []]) \<and>
     (subs \<noteq> [] \<longrightarrow>
        trace s1 = trace s @ map (\<lambda>e. BusSubscribe (fst e) c) subs \<and>
        bus_pending s1 = bus_pending s @ replicate (length subs) (JoinCb (next_join s)) \<and>
        (\<forall>k. \<exists>s2. completions k (next_join s) s1 = Inr s2 \<and>
           trace s2 = trace s1 @
             (if k < length subs then [] else [Suback c R (replicate (length subs) 0)])))"
proof (cases "subs = []")
  case True
  with assms show ?thesis
    by (simp add: deliver_def on_subscribe_def parallel_def emit_def)
next
  case False
  let ?j = "next_join s"
  let ?g = "replicate (length subs) (0::nat)"
  let ?s0 = "s\<lparr>joins := (joins s)(?j \<mapsto> (length subs, FSuback c R ?g)), next_join := Suc ?j\<rparr>"
  let ?s1 = "?s0\<lparr>trace := trace ?s0 @ map (\<lambda>e. BusSubscribe (fst e) c) subs,
                 bus_pending := bus_pending ?s0 @ replicate (length subs) (JoinCb ?j)\<rparr>"
  from assms False have d: "deliver c (Subscribe subs R) s = Inr ?s1"
    by (simp add: deliver_def on_subscribe_def parallel_def run_tasks_subscribe
        map_replicate_const)
  have tr: "trace ?s1 = trace s @ map (\<lambda>e. BusSubscribe (fst e) c) subs" by simp
  have bp: "bus_pending ?s1 = bus_pending s @ replicate (length subs) (JoinCb ?j)" by simp
  have j1: "joins ?s1 ?j = Some (length subs, FSuback c R ?g)" by simp
  have perk: "\<exists>s2. completions k ?j ?s1 = Inr s2 \<and>
           trace s2 = trace ?s1 @ (if k < length subs then [] else [Suback c R ?g])" for k
  proof (cases "k < length subs")
    case True
    from completions_pending [OF j1 True] obtain s2 where
      "completions k ?j ?s1 = Inr s2" "trace s2 = trace ?s1" by blast
    with True show ?thesis by simp
  next
    case False
    from \<open>subs \<noteq> []\<close> have "0 < length subs" by simp
    moreover from False have "length subs \<le> k" by simp
    ultimately obtain s2 where "completions k ?j ?s1 = Inr s2"
      "trace s2 = trace ?s1 @ [Suback c R ?g]"
      using completions_finished [OF j1] by blast
    with False show ?thesis by simp
  qed
  show ?thesis
  proof (rule exI [of _ ?s1], intro conjI impI allI)
    show "deliver c (Subscribe subs R) s = Inr ?s1" by (rule d)
    show "trace ?s1 = trace s @ [Suback c R []]" if "subs = []"
      using that False by simp
    show "trace ?s1 = trace s @ map (\<lambda>e. BusSubscribe (fst e) c) subs" by (rule tr)
    show "bus_pending ?s1 = bus_pending s @ replicate (length subs) (JoinCb ?j)" by (rule bp)
    show "\<exists>s2. completions k ?j ?s1 = Inr s2 \<and>
           trace s2 = trace ?s1 @ (if k < length subs then [] else [Suback c R ?g])" for k
      by (rule perk)
  qed
qed

text \<open>The two-entry subscription with message id 7 of the specification.\<close>

theorem subscribe_suback_witness:
  "listeners (heap (serve init) 0) \<and>
   (\<exists>s1. deliver 0 (Subscribe [(''a/b'', 0), (''c/d'', 1)] 7) (serve init) = Inr s1 \<and>
     ([(''a/b'', 0::nat), (''c/d'', 1)] = [] \<longrightarrow> trace s1 = trace (serve init) @ [Suback 0 7 []]) \<and>
     ([(''a/b'', 0::nat), (''c/d'', 1)] \<noteq> [] \<longrightarrow>
        trace s1 = trace (serve init) @
           map (\<lambda>e. BusSubscribe (fst e) 0) [(''a/b'', 0::nat), (''c/d'', 1)] \<and>
        bus_pending s1 = bus_pending (serve init) @
           replicate (length [(''a/b'', 0::nat), (''c/d'', 1)]) (JoinCb (next_join (serve init))) \<and>
        (\<forall>k. \<exists>s2. completions k (next_join (serve init)) s1 = Inr s2 \<and>
           trace s2 = trace s1 @
             (if k < length [(''a/b'', 0::nat), (''c/d'', 1)] then []
              else [Suback 0 7 (replicate (length [(''a/b'', 0::nat), (''c/d'', 1)]) 0)])))) \<and>
   trace (final_state (run init
     [Accept, Packet 0 (Subscribe [(''a/b'', 0), (''c/d'', 1)] 7), BusDone 1])) =
     [BusSubscribe ''a/b'' 0, BusSubscribe ''c/d'' 0] \<and>
   trace (final_state (run init
     [Accept, Packet 0 (Subscribe [(''a/b'', 0), (''c/d'', 1)] 7), BusDone 1, BusDone 0])) =
     [BusSubscribe ''a/b'' 0, BusSubscribe ''c/d'' 0, Suback 0 7 [0, 0]]"
proof -
  have h: "listeners (heap (serve init) 0)"
    by (simp add: serve_def init_def new_client_def)
  have e1: "trace (final_state (run init
     [Accept, Packet 0 (Subscribe [(''a/b'', 0), (''c/d'', 1)] 7), BusDone 1])) =
     [BusSubscribe ''a/b'' 0, BusSubscribe ''c/d'' 0]"
    by (simp add: eval_defs)
  have e2: "trace (final_state (run init
     [Accept, Packet 0 (Subscribe [(''a/b'', 0), (''c/d'', 1)] 7), BusDone 1, BusDone 0])) =
     [BusSubscribe ''a/b'' 0, BusSubscribe ''c/d'' 0, Suback 0 7 [0, 0]]"
    by (simp add: eval_defs)
  note b = subscribe_suback [OF h, of "[(''a/b'', 0), (''c/d'', 1)]" 7]
  show ?thesis
    by (rule conjI [OF h conjI [OF b conjI [OF e1 e2]]])
qed

subsection \<open>Every reachable state is well-formed\<close>

lemma same_core_refl: "same_core s s"
  by (simp add: same_core_def)

lemma same_core_trans: "same_core s s' \<Longrightarrow> same_core s' s'' \<Longrightarrow> same_core s s''"
  by (simp add: same_core_def)

lemma same_core_ok: "same_core s s' \<Longrightarrow> state_ok s \<Longrightarrow> state_ok s'"
  by (simp add: same_core_def state_ok_def)

lemma same_core_emit: "same_core s (emit x s)"
  by (simp add: same_core_def emit_def)

lemma same_core_next: "same_core s (next cbo s)"
  by (simp add: same_core_def next_def split: option.splits)

lemma same_core_bus_call: "same_core s (bus_call x cb s)"
  by (simp add: same_core_def bus_call_def emit_def)

lemma same_core_server_close: "same_core s (final_state (server_close cbo s))"
  by (simp add: same_core_def server_close_def final_state_def emit_def)

lemma same_core_call_user: "same_core s (final_state (call_user cbo s))"
  by (simp add: same_core_def call_user_def final_state_def emit_def split: option.splits)

lemma same_core_run_final: "same_core s (final_state (run_final fin s))"
proof (cases fin)
  case (FClose cbo)
  show ?thesis
  proof (cases "server_close cbo s")
    case (Inl x)
    then obtain e s' where x: "server_close cbo s = Inl (e, s')" by (cases x) auto
    with same_core_server_close [of s cbo] have "same_core s s'"
      by (simp add: final_state_def)
    moreover have "same_core s' (final_state (call_user cbo s'))" by (rule same_core_call_user)
    ultimately show ?thesis using FClose x by (simp add: same_core_trans)
  next
    case (Inr s')
    with same_core_server_close [of s cbo] FClose show ?thesis
      by (simp add: final_state_def)
  qed
qed (simp_all add: final_state_def same_core_emit)

lemma same_core_join_done: "same_core s (final_state (join_done j s))"
proof (cases "joins s j")
  case None
  then show ?thesis by (simp add: join_done_def final_state_def same_core_refl)
next
  case (Some p)
  obtain n fin where p: "p = (n, fin)" by (cases p)
  show ?thesis
  proof (cases "n \<le> 1")
    case True
    have "same_core s (s\<lparr>joins := (joins s)(j := None)\<rparr>)" by (simp add: same_core_def)
    moreover have "same_core (s\<lparr>joins := (joins s)(j := None)\<rparr>)
        (final_state (run_final fin (s\<lparr>joins := (joins s)(j := None)\<rparr>)))"
      by (rule same_core_run_final)
    ultimately have "same_core s (final_state (run_final fin (s\<lparr>joins := (joins s)(j := None)\<rparr>)))"
      by (rule same_core_trans)
    with Some p True show ?thesis by (simp add: join_done_def)
  next
    case False
    with Some p show ?thesis by (simp add: join_done_def final_state_def same_core_def)
  qed
qed

lemma same_core_invoke: "same_core s (final_state (invoke cb s))"
proof (cases cb)
  case (JoinCb j)
  then show ?thesis by (simp add: invoke_def same_core_join_done)
next
  case (UserCb k)
  then show ?thesis by (simp add: invoke_def final_state_def same_core_emit)
qed

lemma obj_put_distinct: "distinct (map fst obj) \<Longrightarrow> distinct (map fst (obj_put k v obj))"
  by (simp add: obj_put_def AList.distinct_update)

lemma obj_put_keys:
  "fst ` set (obj_put k v obj) =
     (if k = ''__proto__'' then fst ` set obj else insert k (fst ` set obj))"
  by (simp add: obj_put_def AList.dom_update)

lemma delete_keys_subset: "k' \<notin> fst ` set obj \<Longrightarrow> k' \<notin> fst ` set (AList.delete k obj)"
  using AList.dom_delete_subset [of k obj] by blast

lemma ok_closeConn: "state_ok s \<Longrightarrow> state_ok (closeConn c cbo s)"
  unfolding state_ok_def closeConn_def Let_def emit_def upd_client_def next_def clearTimeout_def
  by (auto split: option.splits simp: AList.distinct_delete delete_keys_subset)

lemma ok_setUpTimer: "state_ok s \<Longrightarrow> c < next_ref s \<Longrightarrow> state_ok (setUpTimer c s)"
  unfolding state_ok_def setUpTimer_def Let_def upd_client_def setTimeout_def clearTimeout_def
  by (auto split: option.splits if_splits simp: less_Suc_eq)


lemma ok_run_task: "state_ok s \<Longrightarrow> state_ok (final_state (run_task t cb s))"
proof (cases t)
  case (TSubscribe topic c)
  assume "state_ok s"
  with same_core_bus_call have "state_ok (bus_call (BusSubscribe topic c) cb s)"
    by (rule same_core_ok)
  with TSubscribe show ?thesis by (simp add: final_state_def)
next
  case (TUnsubscribe topic c)
  assume "state_ok s"
  with same_core_bus_call have "state_ok (bus_call (BusUnsubscribe topic c) cb s)"
    by (rule same_core_ok)
  with TUnsubscribe show ?thesis by (simp add: final_state_def)
next
  case (TCloseConn k)
  assume "state_ok s"
  with TCloseConn show ?thesis
    by (simp add: final_state_def ok_closeConn split: option.splits)
qed

lemma ok_run_tasks: "state_ok s \<Longrightarrow> state_ok (final_state (run_tasks ts cb s))"
proof (induction ts arbitrary: s)
  case Nil
  then show ?case by (simp add: final_state_def)
next
  case (Cons t ts)
  show ?case
  proof (cases "run_task t cb s")
    case (Inl x)
    with ok_run_task [OF Cons.prems, of t cb] show ?thesis by simp
  next
    case (Inr s')
    with ok_run_task [OF Cons.prems, of t cb] have "state_ok s'" by (simp add: final_state_def)
    with Inr Cons.IH show ?thesis by simp
  qed
qed

lemma ok_parallel: "state_ok s \<Longrightarrow> state_ok (final_state (parallel ts fin s))"
proof (cases "ts = []")
  case True
  assume "state_ok s"
  with True same_core_ok [OF same_core_run_final] show ?thesis by (simp add: parallel_def)
next
  case False
  assume "state_ok s"
  then have "state_ok (s\<lparr>joins := (joins s)(next_join s \<mapsto> (length ts, fin)),
                next_join := Suc (next_join s)\<rparr>)"
    by (simp add: state_ok_def)
  with False show ?thesis by (simp add: parallel_def ok_run_tasks)
qed

lemma ok_on_connect: "state_ok s \<Longrightarrow> c < next_ref s \<Longrightarrow> state_ok (on_connect c cid ka s)"
proof -
  assume w: "state_ok s" and c: "c < next_ref s"
  let ?s2 = "(upd_client c (\<lambda>cl. cl\<lparr>client_id := Some cid, keepalive := Some ka\<rparr>) s)
              \<lparr>clients := obj_put cid c (clients s)\<rparr>"
  from w have "state_ok ?s2"
    unfolding state_ok_def upd_client_def
    by (auto simp: obj_put_distinct obj_put_keys)
  moreover from c have "c < next_ref ?s2" by (simp add: upd_client_def)
  ultimately have "state_ok (setUpTimer c ?s2)" by (rule ok_setUpTimer)
  then have "state_ok (emit (EmitClientConnected c) (emit (Connack c 0) (setUpTimer c ?s2)))"
    using same_core_ok [OF same_core_emit] by blast
  then show ?thesis by (simp add: on_connect_def Let_def upd_client_def)
qed

lemma ok_handler: "state_ok s \<Longrightarrow> c < next_ref s \<Longrightarrow> state_ok (final_state (handler c p s))"
proof (cases p)
  case (Connect cid ka)
  assume "state_ok s" "c < next_ref s"
  with Connect show ?thesis by (simp add: final_state_def ok_on_connect)
next
  case Pingreq
  assume "state_ok s" "c < next_ref s"
  then have "state_ok (setUpTimer c s)" by (rule ok_setUpTimer)
  with Pingreq show ?thesis
    using same_core_ok [OF same_core_emit] by (simp add: final_state_def on_pingreq_def)
next
  case (Subscribe subs mid)
  assume "state_ok s"
  with Subscribe show ?thesis by (simp add: on_subscribe_def ok_parallel)
next
  case (Publish topic payload)
  assume "state_ok s"
  with Publish show ?thesis
    using same_core_ok [OF same_core_emit] by (simp add: final_state_def on_publish_def)
next
  case (Unsubscribe topics mid)
  assume "state_ok s"
  with Unsubscribe show ?thesis by (simp add: on_unsubscribe_def ok_parallel)
next
  case Disconnect
  assume "state_ok s"
  with Disconnect show ?thesis by (simp add: final_state_def ok_closeConn)
next
  case ErrorEvent
  assume "state_ok s"
  with ErrorEvent show ?thesis by (simp add: final_state_def ok_closeConn)
qed

lemma ok_timer_fire: "state_ok s \<Longrightarrow> state_ok (timer_fire h s)"
proof -
  assume w: "state_ok s"
  then have "state_ok (s\<lparr>timers := (timers s)(h := None)\<rparr>)" by (simp add: state_ok_def)
  then have "state_ok (closeConn c None (s\<lparr>timers := (timers s)(h := None)\<rparr>))" for c
    by (rule ok_closeConn)
  with w show ?thesis by (simp add: timer_fire_def split: option.splits)
qed

lemma ok_serve: "state_ok s \<Longrightarrow> state_ok (serve s)"
proof -
  assume w: "state_ok s"
  have hp: "heap (serve s) c = (if c = next_ref s then new_client\<lparr>listeners := True\<rparr> else heap s c)"
    for c by (simp add: serve_def)
  have tm: "timers (serve s) = timers s" "next_handle (serve s) = next_handle s"
    "next_ref (serve s) = Suc (next_ref s)" "clients (serve s) = clients s"
    by (simp_all add: serve_def)
  from w have pend: "h < next_handle s \<and> owner e < next_ref s \<and> timer (heap s (owner e)) = Some h"
    if "timers s h = Some e" for h e
    using that unfolding state_ok_def by blast
  from w have held: "h < next_handle s" if "timer (heap s c) = Some h" for c h
    using that unfolding state_ok_def by blast
  from w have inj: "c = c'" if "timer (heap s c) = Some h" "timer (heap s c') = Some h" for c c' h
    using that unfolding state_ok_def by blast
  from w have att: "c < next_ref s" if "listeners (heap s c)" for c
    using that unfolding state_ok_def by blast
  from w have dist: "distinct (map fst (clients s))"
    unfolding state_ok_def by blast
  from w have proto: "''__proto__'' \<notin> fst ` set (clients s)"
    unfolding state_ok_def by blast
  show ?thesis
    unfolding state_ok_def tm
  proof (intro conjI allI impI)
    show "distinct (map fst (clients s))" by (rule dist)
  next
    show "''__proto__'' \<notin> fst ` set (clients s)" by (rule proto)
  next
    fix h e assume a: "timers s h = Some e"
    from pend [OF a] show "h < next_handle s" by simp
    from pend [OF a] show "owner e < Suc (next_ref s)" by simp
    from pend [OF a] show "timer (heap (serve s) (owner e)) = Some h" by (simp add: hp)
  next
    fix c h assume "timer (heap (serve s) c) = Some h"
    then have "timer (heap s c) = Some h"
      by (simp add: hp new_client_def split: if_splits)
    then show "h < next_handle s" by (rule held)
  next
    fix c c' h
    assume "timer (heap (serve s) c) = Some h" "timer (heap (serve s) c') = Some h"
    then have "timer (heap s c) = Some h" "timer (heap s c') = Some h"
      by (simp_all add: hp new_client_def split: if_splits)
    then show "c = c'" by (rule inj)
  next
    fix c assume "listeners (heap (serve s) c)"
    then have "c = next_ref s \<or> listeners (heap s c)"
      by (simp add: hp split: if_splits)
    with att show "c < Suc (next_ref s)" by (auto simp: less_Suc_eq)
  qed
qed

lemma ok_step: "state_ok s \<Longrightarrow> state_ok (final_state (step s e))"
proof (cases e)
  case Accept
  assume "state_ok s"
  with Accept show ?thesis by (simp add: final_state_def ok_serve)
next
  case (Packet c p)
  assume w: "state_ok s"
  show ?thesis
  proof (cases "listeners (heap s c)")
    case True
    with w have "c < next_ref s" by (simp add: state_ok_def)
    with w True Packet show ?thesis by (simp add: deliver_def ok_handler)
  next
    case False
    with w Packet show ?thesis by (simp add: deliver_def final_state_def)
  qed
next
  case (TimerFire h)
  assume "state_ok s"
  with TimerFire show ?thesis by (simp add: final_state_def ok_timer_fire)
next
  case Tick
  assume w: "state_ok s"
  show ?thesis
  proof (cases "tickq s")
    case Nil
    with w Tick show ?thesis by (simp add: tick_def final_state_def)
  next
    case (Cons cb q)
    from w have "state_ok (s\<lparr>tickq := q\<rparr>)" by (simp add: state_ok_def)
    with Cons Tick show ?thesis
      using same_core_ok [OF same_core_invoke] by (simp add: tick_def)
  qed
next
  case (BusDone i)
  assume w: "state_ok s"
  show ?thesis
  proof (cases "i < length (bus_pending s)")
    case True
    from w have "state_ok (s\<lparr>bus_pending := take i (bus_pending s) @ drop (Suc i) (bus_pending s)\<rparr>)"
      by (simp add: state_ok_def)
    with True BusDone show ?thesis
      using same_core_ok [OF same_core_invoke] by (simp add: bus_done_def)
  next
    case False
    with w BusDone show ?thesis by (simp add: bus_done_def final_state_def)
  qed
next
  case ListenerClosed
  assume "state_ok s"
  with ListenerClosed show ?thesis by (simp add: final_state_def listener_closed_def state_ok_def)
next
  case (Close cbo)
  assume "state_ok s"
  with Close show ?thesis by (simp add: close_def ok_parallel)
next
  case (Elapse d)
  assume "state_ok s"
  with Elapse show ?thesis by (simp add: final_state_def state_ok_def)
qed

lemma ok_init: "state_ok init"
  by (simp add: state_ok_def init_def new_client_def)

lemma reachable_ok: "reachable s \<Longrightarrow> state_ok s"
  by (induction rule: reachable.induct) (simp_all add: ok_init ok_step)

subsection \<open>The registry has one entry per client id\<close>

lemma filter_key_absent: "X \<notin> fst ` set al \<Longrightarrow> [p\<leftarrow>al. fst p = X] = []"
  by (induction al) auto

lemma distinct_keys_one: "distinct (map fst al) \<Longrightarrow> length [p\<leftarrow>al. fst p = X] \<le> 1"
  by (induction al) (auto simp: filter_key_absent)

lemma state_ok_distinct: "state_ok s \<Longrightarrow> distinct (map fst (clients s))"
  by (simp add: state_ok_def)

text \<open>
  Claim C7. In every reachable state the registry holds at most one entry keyed by a
  client id \<open>X\<close>, and whatever the next event is (a packet of any kind on any connection,
  a timeout, a deferred callback, a call of \<open>close\<close>), the state it leaves behind does
  so too.
\<close>

theorem registry_unique_keys:
  assumes "reachable s"
  shows "length [p\<leftarrow>clients s. fst p = X] \<le> 1 \<and>
         length [p\<leftarrow>clients (final_state (step s e)). fst p = X] \<le> 1"
proof
  from assms have "state_ok s" by (rule reachable_ok)
  then have "distinct (map fst (clients s))" by (rule state_ok_distinct)
  then show "length [p\<leftarrow>clients s. fst p = X] \<le> 1" by (rule distinct_keys_one)
  from assms have "reachable (final_state (step s e))" by (rule reachable_step)
  then have "state_ok (final_state (step s e))" by (rule reachable_ok)
  then have "distinct (map fst (clients (final_state (step s e))))" by (rule state_ok_distinct)
  then show "length [p\<leftarrow>clients (final_state (step s e)). fst p = X] \<le> 1"
    by (rule distinct_keys_one)
qed

text \<open>A state with one registered session, and a second connect packet with its id.\<close>

theorem registry_unique_keys_witness:
  "reachable (final_state (step (final_state (step init Accept)) (Packet 0 (Connect ''c1'' 10)))) \<and>
   clients (final_state (step (final_state (step init Accept)) (Packet 0 (Connect ''c1'' 10)))) = [(''c1'', 0)] \<and>
   length [p\<leftarrow>clients (final_state (step (final_state (step init Accept)) (Packet 0 (Connect ''c1'' 10)))). fst p = ''c1''] \<le> 1 \<and>
   length [p\<leftarrow>clients (final_state (step (final_state (step (final_state (step init Accept)) (Packet 0 (Connect ''c1'' 10)))) (Packet 0 (Connect ''c1'' 20)))). fst p = ''c1''] \<le> 1"
proof -
  let ?s = "final_state (step (final_state (step init Accept)) (Packet 0 (Connect ''c1'' 10)))"
  have r: "reachable ?s"
    by (intro reachable_step reachable_init)
  have c: "clients ?s = [(''c1'', 0)]"
    by (simp add: eval_defs)
  from r c registry_unique_keys [OF r, of "''c1''" "Packet 0 (Connect ''c1'' 20)"]
  show ?thesis by blast
qed

subsection \<open>One pending timer per session\<close>

lemma state_ok_pending:
  "state_ok s \<Longrightarrow> timers s h = Some e \<Longrightarrow>
   h < next_handle s \<and> timer (heap s (owner e)) = Some h"
  unfolding state_ok_def by blast

lemma state_ok_held: "state_ok s \<Longrightarrow> timer (heap s c) = Some h \<Longrightarrow> h < next_handle s"
  unfolding state_ok_def by blast

lemma state_ok_inj:
  "state_ok s \<Longrightarrow> timer (heap s c) = Some h \<Longrightarrow> timer (heap s c') = Some h \<Longrightarrow> c = c'"
  unfolding state_ok_def by blast

lemma timers_setUpTimer:
  "timers (setUpTimer c s) =
     (case timer (heap s c) of None \<Rightarrow> timers s | Some h0 \<Rightarrow> (timers s)(h0 := None))
       (next_handle s \<mapsto> \<lparr>owner = c, armed = now s, delay = timeout_ms (keepalive (heap s c))\<rparr>)"
  by (simp add: setUpTimer_def Let_def upd_client_def setTimeout_def clearTimeout_def
      split: option.splits)

lemma heap_setUpTimer:
  "heap (setUpTimer c s) = (heap s)(c := (heap s c)\<lparr>timer := Some (next_handle s)\<rparr>)"
  by (simp add: setUpTimer_def Let_def upd_client_def setTimeout_def clearTimeout_def
      split: option.splits)

text \<open>
  Claim C8. In every reachable state two pending timeouts of one client are the same
  timeout, so a session has at most one live timer handle. A rearm (\<open>setUpTimer\<close>, run
  by the connect and pingreq handlers) cancels the handle the client holds, and the
  timeout it schedules is then the only pending one of that client.
\<close>

theorem one_timer_per_session:
  assumes "reachable s"
  shows "(\<forall>h1 h2 e1 e2. timers s h1 = Some e1 \<and> timers s h2 = Some e2 \<and> owner e1 = owner e2
            \<longrightarrow> h1 = h2) \<and>
         (\<forall>h e. timers (setUpTimer c s) h = Some e \<and> owner e = c \<longrightarrow> h = next_handle s) \<and>
         (\<forall>h0. timer (heap s c) = Some h0 \<longrightarrow> timers (setUpTimer c s) h0 = None)"
proof (intro conjI allI impI)
  from assms have ok: "state_ok s" by (rule reachable_ok)
  {
    fix h1 h2 e1 e2
    assume a: "timers s h1 = Some e1 \<and> timers s h2 = Some e2 \<and> owner e1 = owner e2"
    from a state_ok_pending [OF ok] have "timer (heap s (owner e1)) = Some h1" by blast
    moreover from a state_ok_pending [OF ok] have "timer (heap s (owner e1)) = Some h2" by metis
    ultimately show "h1 = h2" by simp
  }
  {
    fix h e
    assume a: "timers (setUpTimer c s) h = Some e \<and> owner e = c"
    show "h = next_handle s"
    proof (rule ccontr)
      assume n: "h \<noteq> next_handle s"
      show False
      proof (cases "timer (heap s c)")
        case None
        with a n have "timers s h = Some e" by (simp add: timers_setUpTimer)
        with state_ok_pending [OF ok] a have "timer (heap s c) = Some h" by blast
        with None show False by simp
      next
        case (Some h0)
        with a n have "timers s h = Some e" "h \<noteq> h0"
          by (auto simp: timers_setUpTimer split: if_splits)
        with state_ok_pending [OF ok] a have "timer (heap s c) = Some h" by blast
        with Some \<open>h \<noteq> h0\<close> show False by simp
      qed
    qed
  }
  {
    fix h0
    assume a: "timer (heap s c) = Some h0"
    with state_ok_held [OF ok] have "h0 \<noteq> next_handle s" by blast
    with a show "timers (setUpTimer c s) h0 = None" by (simp add: timers_setUpTimer)
  }
qed

text \<open>One session connected with keepalive 10, rearmed.\<close>

theorem one_timer_per_session_witness:
  "reachable (final_state (run init [Accept, Packet 0 (Connect ''c1'' 10)])) \<and>
   timers (final_state (run init [Accept, Packet 0 (Connect ''c1'' 10)])) 0
     = Some \<lparr>owner = 0, armed = 0, delay = Some 12500\<rparr> \<and>
   timer (heap (final_state (run init [Accept, Packet 0 (Connect ''c1'' 10)])) 0) = Some 0 \<and>
   timers (setUpTimer 0 (final_state (run init [Accept, Packet 0 (Connect ''c1'' 10)]))) 0
     = None \<and>
   timers (setUpTimer 0 (final_state (run init [Accept, Packet 0 (Connect ''c1'' 10)]))) 1
     = Some \<lparr>owner = 0, armed = 0, delay = Some 12500\<rparr>"
proof -
  let ?s = "final_state (run init [Accept, Packet 0 (Connect ''c1'' 10)])"
  have r: "reachable ?s" by (rule reachable_run [OF reachable_init])
  have t: "timers ?s 0 = Some \<lparr>owner = 0, armed = 0, delay = Some 12500\<rparr>"
    by (simp add: eval_defs)
  have h: "timer (heap ?s 0) = Some 0"
    by (simp add: eval_defs)
  from h one_timer_per_session [OF r, of 0] have c: "timers (setUpTimer 0 ?s) 0 = None"
    by blast
  have n: "timers (setUpTimer 0 ?s) 1 = Some \<lparr>owner = 0, armed = 0, delay = Some 12500\<rparr>"
    by (simp add: eval_defs)
  from r t h c n show ?thesis by blast
qed

subsection \<open>A connect packet that reuses a registered client id\<close>

lemma filter_update_other:
  "[p\<leftarrow>AList.update X v al. fst p \<noteq> X] = [p\<leftarrow>al. fst p \<noteq> X]"
  by (induction al) auto

lemma filter_obj_put_other:
  "[p\<leftarrow>obj_put X v al. fst p \<noteq> X] = [p\<leftarrow>al. fst p \<noteq> X]"
  by (simp add: obj_put_def filter_update_other)

lemma state_ok_proto: "state_ok s \<Longrightarrow> map_of (clients s) X = Some c \<Longrightarrow> X \<noteq> ''__proto__''"
proof
  assume ok: "state_ok s" and m: "map_of (clients s) X = Some c" and x: "X = ''__proto__''"
  from m have "(X, c) \<in> set (clients s)" by (rule map_of_SomeD)
  then have "fst (X, c) \<in> fst ` set (clients s)" by (rule imageI)
  with x have "''__proto__'' \<in> fst ` set (clients s)" by simp
  with ok show False by (simp add: state_ok_def)
qed

lemma on_connect_fields:
  "clients (on_connect c X K s) = obj_put X c (clients s)"
  "trace (on_connect c X K s) = trace s @ [Connack c 0, EmitClientConnected c]"
  "heap (on_connect c X K s) =
     (heap s)(c := (heap s c)\<lparr>client_id := Some X, keepalive := Some K,
                               timer := Some (next_handle s)\<rparr>)"
  "timers (on_connect c X K s) =
     (case timer (heap s c) of None \<Rightarrow> timers s | Some h0 \<Rightarrow> (timers s)(h0 := None))
       (next_handle s \<mapsto> \<lparr>owner = c, armed = now s, delay = Some (K * 1000 * 5 div 4)\<rparr>)"
  by (simp_all add: on_connect_def Let_def emit_def timers_setUpTimer heap_setUpTimer
      upd_client_def timeout_ms_def setUpTimer_def setTimeout_def clearTimeout_def
      split: option.splits)

text \<open>
  Claim C6. In a reachable state where the client id \<open>X\<close> is registered to a session
  \<open>c_old\<close>, a connect packet with id \<open>X\<close> on another connection \<open>c_new\<close> makes the entry
  of \<open>X\<close> point to \<open>c_new\<close>; the other entries of the registry stay as they are, in
  their order; the client object of \<open>c_old\<close> is untouched (its stream is not ended, its
  handlers stay attached); every pending timeout of \<open>c_old\<close> stays pending; and the only
  outputs are the acknowledgment and the \<open>clientConnected\<close> notification of \<open>c_new\<close>.
\<close>

theorem connect_overwrites_entry:
  assumes "reachable s" and "listeners (heap s c_new)"
    and "map_of (clients s) X = Some c_old" and "c_old \<noteq> c_new"
  shows "\<exists>s'. deliver c_new (Connect X K) s = Inr s' \<and>
     map_of (clients s') X = Some c_new \<and>
     [p\<leftarrow>clients s'. fst p \<noteq> X] = [p\<leftarrow>clients s. fst p \<noteq> X] \<and>
     heap s' c_old = heap s c_old \<and>
     (\<forall>h e. timers s h = Some e \<and> owner e = c_old \<longrightarrow> timers s' h = Some e) \<and>
     trace s' = trace s @ [Connack c_new 0, EmitClientConnected c_new]"
proof (rule exI [of _ "on_connect c_new X K s"], intro conjI allI impI)
  from assms(1) have ok: "state_ok s" by (rule reachable_ok)
  from assms(2) show "deliver c_new (Connect X K) s = Inr (on_connect c_new X K s)"
    by (simp add: deliver_def)
  from state_ok_proto [OF ok assms(3)]
  show "map_of (clients (on_connect c_new X K s)) X = Some c_new"
    by (simp add: on_connect_fields obj_put_def AList.update_conv')
  show "[p\<leftarrow>clients (on_connect c_new X K s). fst p \<noteq> X] = [p\<leftarrow>clients s. fst p \<noteq> X]"
    by (simp add: on_connect_fields filter_obj_put_other)
  from assms(4) show "heap (on_connect c_new X K s) c_old = heap s c_old"
    by (simp add: on_connect_fields)
  show "trace (on_connect c_new X K s) = trace s @ [Connack c_new 0, EmitClientConnected c_new]"
    by (simp add: on_connect_fields)
  fix h e
  assume a: "timers s h = Some e \<and> owner e = c_old"
  with state_ok_pending [OF ok] have h: "h < next_handle s" "timer (heap s c_old) = Some h"
    by blast+
  have "timer (heap s c_new) \<noteq> Some h"
  proof
    assume "timer (heap s c_new) = Some h"
    with h(2) state_ok_inj [OF ok] have "c_old = c_new" by blast
    with assms(4) show False by simp
  qed
  with h(1) a show "timers (on_connect c_new X K s) h = Some e"
    by (simp add: on_connect_fields split: option.splits)
qed

text \<open>Two connections; the second connects with the id the first is registered under.\<close>

theorem connect_overwrites_entry_witness:
  "reachable (final_state (run init [Accept, Packet 0 (Connect ''c1'' 10), Accept])) \<and>
   listeners (heap (final_state (run init [Accept, Packet 0 (Connect ''c1'' 10), Accept])) 1) \<and>
   map_of (clients (final_state (run init [Accept, Packet 0 (Connect ''c1'' 10), Accept]))) ''c1''
     = Some 0 \<and>
   (0::nat) \<noteq> 1 \<and>
   timers (final_state (run init [Accept, Packet 0 (Connect ''c1'' 10), Accept])) 0
     = Some \<lparr>owner = 0, armed = 0, delay = Some 12500\<rparr> \<and>
   (\<exists>s'. deliver 1 (Connect ''c1'' 20)
           (final_state (run init [Accept, Packet 0 (Connect ''c1'' 10), Accept])) = Inr s' \<and>
      map_of (clients s') ''c1'' = Some 1 \<and>
      heap s' 0 = heap (final_state (run init [Accept, Packet 0 (Connect ''c1'' 10), Accept])) 0 \<and>
      timers s' 0 = Some \<lparr>owner = 0, armed = 0, delay = Some 12500\<rparr>)"
proof -
  let ?s = "final_state (run init [Accept, Packet 0 (Connect ''c1'' 10), Accept])"
  have r: "reachable ?s" by (rule reachable_run [OF reachable_init])
  have l: "listeners (heap ?s 1)" by (simp add: eval_defs)
  have m: "map_of (clients ?s) ''c1'' = Some 0" by (simp add: eval_defs)
  have d: "(0::nat) \<noteq> 1" by simp
  have t: "timers ?s 0 = Some \<lparr>owner = 0, armed = 0, delay = Some 12500\<rparr>"
    by (simp add: eval_defs)
  from connect_overwrites_entry [OF r l m d, of 20] t
  have "\<exists>s'. deliver 1 (Connect ''c1'' 20) ?s = Inr s' \<and>
      map_of (clients s') ''c1'' = Some 1 \<and> heap s' 0 = heap ?s 0 \<and>
      timers s' 0 = Some \<lparr>owner = 0, armed = 0, delay = Some 12500\<rparr>"
    by fastforce
  with r l m d t show ?thesis by blast
qed

subsection \<open>What \<open>closeConn\<close> does\<close>

lemma closeConn_effects:
  "stream_ended (heap (closeConn c cbo s) c) \<and> \<not> listeners (heap (closeConn c cbo s) c) \<and>
   tickq (closeConn c cbo s) = tickq s @ (case cbo of None \<Rightarrow> [] | Some cb \<Rightarrow> [cb]) \<and>
   trace (closeConn c cbo s) = trace s @ [StreamEnd c, EmitClientDisconnected c]"
  by (simp add: closeConn_def Let_def emit_def upd_client_def next_def clearTimeout_def
      split: option.splits)

lemma closeConn_frame:
  "joins (closeConn c cbo s) = joins s" "next_join (closeConn c cbo s) = next_join s"
  "listening (closeConn c cbo s) = listening s"
  "close_waiters (closeConn c cbo s) = close_waiters s"
  "bus_pending (closeConn c cbo s) = bus_pending s"
  "client_id (heap (closeConn c cbo s) c') = client_id (heap s c')"
  by (simp_all add: closeConn_def Let_def emit_def upd_client_def next_def clearTimeout_def
      split: option.splits)

lemma closeConn_registered:
  "client_id (heap s c) = Some x \<Longrightarrow> x \<noteq> [] \<Longrightarrow>
   clients (closeConn c cbo s) = AList.delete x (clients s) \<and>
   timers (closeConn c cbo s) =
     (case timer (heap s c) of None \<Rightarrow> timers s | Some h \<Rightarrow> (timers s)(h := None))"
  by (simp add: closeConn_def Let_def emit_def upd_client_def next_def clearTimeout_def
      split: option.splits)

lemma closeConn_no_id:
  "client_id (heap s c) = None \<or> client_id (heap s c) = Some [] \<Longrightarrow>
   clients (closeConn c cbo s) = clients s \<and> timers (closeConn c cbo s) = timers s"
  by (auto simp: closeConn_def Let_def emit_def upd_client_def next_def clearTimeout_def
      split: option.splits)

lemma closeConn_other_keys:
  "client_id (heap s c) = Some k \<Longrightarrow> k' \<noteq> k \<Longrightarrow>
   map_of (clients (closeConn c cbo s)) k' = map_of (clients s) k'"
  by (cases "k = []") (simp_all add: closeConn_registered closeConn_no_id)

subsection \<open>Which packets rearm the liveness timer\<close>

lemma run_tasks_unsubscribe:
  "run_tasks (map (\<lambda>topic. TUnsubscribe topic c) topics) cb s =
     Inr (s\<lparr>trace := trace s @ map (\<lambda>topic. BusUnsubscribe topic c) topics,
            bus_pending := bus_pending s @ replicate (length topics) cb\<rparr>)"
proof (induction topics arbitrary: s)
  case Nil
  show ?case by simp
next
  case (Cons e topics)
  show ?case
    by (simp add: Cons.IH bus_call_def emit_def replicate_append_same)
qed



lemma timeout_ms_exact: "timeout_ms (Some K) = Some (K * 1250)"
  by (simp add: timeout_ms_def)



subsection \<open>Keepalive 0\<close>

text \<open>
  A session connects with keepalive 0; one millisecond later its timeout runs and tears
  it down.
\<close>

theorem keepalive_zero_counterexample:
  "raised (run init [Accept, Packet 0 (Connect ''c1'' 0), Elapse 1, TimerFire 0]) = None \<and>
   trace (final_state (run init [Accept, Packet 0 (Connect ''c1'' 0), Elapse 1])) =
     [Connack 0 0, EmitClientConnected 0] \<and>
   trace (final_state (run init [Accept, Packet 0 (Connect ''c1'' 0), Elapse 1, TimerFire 0])) =
     [Connack 0 0, EmitClientConnected 0, StreamEnd 0, EmitClientDisconnected 0] \<and>
   clients (final_state (run init [Accept, Packet 0 (Connect ''c1'' 0), Elapse 1, TimerFire 0])) = []"
  by (simp add: eval_defs)

text \<open>
  Claim C5, amended. A keepalive of 0 does not disable the timeout: the connect handler
  schedules a timeout of delay 0 ms, which is due at once and at any later time; when it
  runs, \<open>closeConn\<close> tears the session down: the stream is ended, the handlers are
  detached and \<open>clientDisconnected\<close> is emitted.
\<close>

theorem keepalive_zero_expires:
  "timers (final_state (handler c (Connect X 0) s)) (next_handle s) =
     Some \<lparr>owner = c, armed = now s, delay = Some 0\<rparr> \<and>
   due (now s + d) \<lparr>owner = c, armed = now s, delay = Some 0\<rparr> \<and>
   timer_fire (next_handle s) ((on_connect c X 0 s)\<lparr>now := now s + d\<rparr>) =
     closeConn c None
       ((on_connect c X 0 s)\<lparr>now := now s + d,
                               timers := (timers (on_connect c X 0 s))(next_handle s := None)\<rparr>) \<and>
   trace (timer_fire (next_handle s) ((on_connect c X 0 s)\<lparr>now := now s + d\<rparr>)) =
     trace s @ [Connack c 0, EmitClientConnected c, StreamEnd c, EmitClientDisconnected c] \<and>
   stream_ended (heap (timer_fire (next_handle s) ((on_connect c X 0 s)\<lparr>now := now s + d\<rparr>)) c) \<and>
   \<not> listeners (heap (timer_fire (next_handle s) ((on_connect c X 0 s)\<lparr>now := now s + d\<rparr>)) c)"
proof -
  let ?e = "\<lparr>owner = c, armed = now s, delay = Some 0\<rparr>"
  let ?s1 = "on_connect c X 0 s"
  let ?s2 = "?s1\<lparr>now := now s + d\<rparr>"
  let ?s3 = "?s1\<lparr>now := now s + d, timers := (timers ?s1)(next_handle s := None)\<rparr>"
  have armed: "timers ?s1 (next_handle s) = Some ?e"
    by (simp add: on_connect_fields)
  have is_due: "due (now s + d) ?e"
    by (simp add: due_def)
  have "now ?s2 = now s + d" "timers ?s2 (next_handle s) = Some ?e"
    using armed by simp_all
  with is_due have fire: "timer_fire (next_handle s) ?s2 = closeConn c None ?s3"
    by (simp add: timer_fire_def)
  have tr: "trace ?s3 = trace s @ [Connack c 0, EmitClientConnected c]"
    by (simp add: on_connect_fields)
  from closeConn_effects [of c None ?s3] tr
  have torn: "trace (closeConn c None ?s3) =
      trace s @ [Connack c 0, EmitClientConnected c, StreamEnd c, EmitClientDisconnected c]"
    "stream_ended (heap (closeConn c None ?s3) c)"
    "\<not> listeners (heap (closeConn c None ?s3) c)"
    by simp_all
  from armed have "timers (final_state (handler c (Connect X 0) s)) (next_handle s) = Some ?e"
    by (simp add: final_state_def)
  with is_due fire torn show ?thesis by simp
qed

subsection \<open>Packets on a connection that has not sent a connect packet\<close>

lemma parallel_subscribe:
  "parallel (map (\<lambda>e. TSubscribe (fst e) c) subs) fin s =
     (if subs = [] then run_final fin s
      else Inr (s\<lparr>joins := (joins s)(next_join s \<mapsto> (length subs, fin)),
                  next_join := Suc (next_join s),
                  trace := trace s @ map (\<lambda>e. BusSubscribe (fst e) c) subs,
                  bus_pending := bus_pending s @ replicate (length subs) (JoinCb (next_join s))\<rparr>))"
  by (simp add: parallel_def run_tasks_subscribe)

lemma parallel_unsubscribe:
  "parallel (map (\<lambda>topic. TUnsubscribe topic c) topics) fin s =
     (if topics = [] then run_final fin s
      else Inr (s\<lparr>joins := (joins s)(next_join s \<mapsto> (length topics, fin)),
                  next_join := Suc (next_join s),
                  trace := trace s @ map (\<lambda>topic. BusUnsubscribe topic c) topics,
                  bus_pending := bus_pending s @ replicate (length topics) (JoinCb (next_join s))\<rparr>))"
  by (simp add: parallel_def run_tasks_unsubscribe)

text \<open>
  A pingreq packet on a connection that has not connected is answered, and one
  millisecond later the timeout it armed runs and tears the connection down. On a
  connected session with keepalive 10 the same packet is answered and the timeout it
  armed is not due.
\<close>

theorem pending_pingreq_counterexample:
  "raised (run init [Accept, Packet 0 Pingreq, Elapse 1, TimerFire 0]) = None \<and>
   trace (final_state (run init [Accept, Packet 0 Pingreq, Elapse 1, TimerFire 0])) =
     [Pingresp 0, StreamEnd 0, EmitClientDisconnected 0] \<and>
   raised (run init [Accept, Packet 0 (Connect ''c1'' 10), Packet 0 Pingreq, Elapse 1,
     TimerFire 1]) = None \<and>
   trace (final_state (run init [Accept, Packet 0 (Connect ''c1'' 10), Packet 0 Pingreq,
     Elapse 1, TimerFire 1])) =
     [Connack 0 0, EmitClientConnected 0, Pingresp 0]"
  by (simp add: eval_defs)

lemma on_pingreq_state:
  "on_pingreq c s =
     s\<lparr>timers :=
         (case timer (heap s c) of None \<Rightarrow> timers s | Some h0 \<Rightarrow> (timers s)(h0 := None))
           (next_handle s \<mapsto>
              \<lparr>owner = c, armed = now s, delay = timeout_ms (keepalive (heap s c))\<rparr>),
       next_handle := Suc (next_handle s),
       heap := (heap s)(c := (heap s c)\<lparr>timer := Some (next_handle s)\<rparr>),
       trace := trace s @ [Pingresp c]\<rparr>"
  by (rule state.equality)
    (simp_all add: on_pingreq_def emit_def setUpTimer_def Let_def upd_client_def setTimeout_def
      clearTimeout_def split: option.splits)

text \<open>
  Claim C9, amended. \<open>serve\<close> attaches the handlers to a client that has no id, no
  keepalive and no timer, and leaves the registry alone, so they are active before any
  connect packet. On every connection with handlers attached, pending or connected, no
  handler is gated on the session: a publish packet is passed to the Topic Bus and
  notified; a subscribe or unsubscribe packet asks the bus for its registrations and is
  acknowledged when they complete (at once when there is none); a pingreq packet cancels
  the timeout the client holds, arms a new one and is answered. None of the first three
  reads the id, the keepalive, the timer or the registry, so they are processed for a
  pending client exactly as for a connected one. The delay of the timeout armed by a
  pingreq is computed from the keepalive: \<open>K * 1250\<close> ms for a connected session, not a
  number for a pending connection, whose timeout is therefore due at once and, when it
  runs, tears the connection down.
\<close>

theorem handlers_before_connect:
  assumes "listeners (heap s c)"
  shows "heap (serve s) (next_ref s) =
       \<lparr>client_id = None, keepalive = None, timer = None, stream_ended = False,
        listeners = True\<rparr> \<and>
     clients (serve s) = clients s \<and>
     deliver c (Publish topic payload) s =
       Inr (s\<lparr>trace := trace s @ [BusPublish topic payload, EmitPublished c topic payload]\<rparr>) \<and>
     deliver c (Subscribe subs R) s =
       Inr (if subs = [] then s\<lparr>trace := trace s @ [Suback c R []]\<rparr>
            else s\<lparr>joins := (joins s)(next_join s \<mapsto>
                          (length subs, FSuback c R (replicate (length subs) 0))),
                   next_join := Suc (next_join s),
                   trace := trace s @ map (\<lambda>e. BusSubscribe (fst e) c) subs,
                   bus_pending := bus_pending s @
                                  replicate (length subs) (JoinCb (next_join s))\<rparr>) \<and>
     deliver c (Unsubscribe topics R) s =
       Inr (if topics = [] then s\<lparr>trace := trace s @ [Unsuback c R]\<rparr>
            else s\<lparr>joins := (joins s)(next_join s \<mapsto> (length topics, FUnsuback c R)),
                   next_join := Suc (next_join s),
                   trace := trace s @ map (\<lambda>topic. BusUnsubscribe topic c) topics,
                   bus_pending := bus_pending s @
                                  replicate (length topics) (JoinCb (next_join s))\<rparr>) \<and>
     deliver c Pingreq s =
       Inr (s\<lparr>timers :=
               (case timer (heap s c) of None \<Rightarrow> timers s
                | Some h0 \<Rightarrow> (timers s)(h0 := None))
                 (next_handle s \<mapsto>
                    \<lparr>owner = c, armed = now s, delay = timeout_ms (keepalive (heap s c))\<rparr>),
              next_handle := Suc (next_handle s),
              heap := (heap s)(c := (heap s c)\<lparr>timer := Some (next_handle s)\<rparr>),
              trace := trace s @ [Pingresp c]\<rparr>) \<and>
     timeout_ms (Some K) = Some (K * 1250) \<and> timeout_ms None = None \<and>
     (keepalive (heap s c) = Some K \<and> 0 < K \<longrightarrow>
        timer_fire (next_handle s) (on_pingreq c s) = on_pingreq c s) \<and>
     (keepalive (heap s c) = None \<longrightarrow>
        trace (timer_fire (next_handle s) (on_pingreq c s)) =
          trace s @ [Pingresp c, StreamEnd c, EmitClientDisconnected c] \<and>
        stream_ended (heap (timer_fire (next_handle s) (on_pingreq c s)) c) \<and>
        \<not> listeners (heap (timer_fire (next_handle s) (on_pingreq c s)) c))"
proof (intro conjI impI)
  show "heap (serve s) (next_ref s) =
       \<lparr>client_id = None, keepalive = None, timer = None, stream_ended = False,
        listeners = True\<rparr>"
    by (simp add: serve_def new_client_def)
  show "clients (serve s) = clients s"
    by (simp add: serve_def)
  from assms show "deliver c (Publish topic payload) s =
       Inr (s\<lparr>trace := trace s @ [BusPublish topic payload, EmitPublished c topic payload]\<rparr>)"
    by (simp add: deliver_def on_publish_def emit_def)
  from assms show "deliver c (Subscribe subs R) s =
       Inr (if subs = [] then s\<lparr>trace := trace s @ [Suback c R []]\<rparr>
            else s\<lparr>joins := (joins s)(next_join s \<mapsto>
                          (length subs, FSuback c R (replicate (length subs) 0))),
                   next_join := Suc (next_join s),
                   trace := trace s @ map (\<lambda>e. BusSubscribe (fst e) c) subs,
                   bus_pending := bus_pending s @
                                  replicate (length subs) (JoinCb (next_join s))\<rparr>)"
    by (simp add: deliver_def on_subscribe_def Let_def parallel_subscribe emit_def
        map_replicate_const)
  from assms show "deliver c (Unsubscribe topics R) s =
       Inr (if topics = [] then s\<lparr>trace := trace s @ [Unsuback c R]\<rparr>
            else s\<lparr>joins := (joins s)(next_join s \<mapsto> (length topics, FUnsuback c R)),
                   next_join := Suc (next_join s),
                   trace := trace s @ map (\<lambda>topic. BusUnsubscribe topic c) topics,
                   bus_pending := bus_pending s @
                                  replicate (length topics) (JoinCb (next_join s))\<rparr>)"
    by (simp add: deliver_def on_unsubscribe_def parallel_unsubscribe emit_def)
  from assms show "deliver c Pingreq s =
       Inr (s\<lparr>timers :=
               (case timer (heap s c) of None \<Rightarrow> timers s
                | Some h0 \<Rightarrow> (timers s)(h0 := None))
                 (next_handle s \<mapsto>
                    \<lparr>owner = c, armed = now s, delay = timeout_ms (keepalive (heap s c))\<rparr>),
              next_handle := Suc (next_handle s),
              heap := (heap s)(c := (heap s c)\<lparr>timer := Some (next_handle s)\<rparr>),
              trace := trace s @ [Pingresp c]\<rparr>)"
    by (simp add: deliver_def on_pingreq_state [symmetric])
  show "timeout_ms (Some K) = Some (K * 1250)" by (rule timeout_ms_exact)
  show "timeout_ms None = None" by (simp add: timeout_ms_def)
next
  assume "keepalive (heap s c) = Some K \<and> 0 < K"
  then show "timer_fire (next_handle s) (on_pingreq c s) = on_pingreq c s"
    by (simp add: on_pingreq_state timer_fire_def due_def timeout_ms_def)
next
  assume k: "keepalive (heap s c) = None"
  let ?p = "on_pingreq c s"
  let ?q = "?p\<lparr>timers := (timers ?p)(next_handle s := None)\<rparr>"
  from k have "timer_fire (next_handle s) ?p = closeConn c None ?q"
    by (simp add: on_pingreq_state timer_fire_def due_def timeout_ms_def)
  moreover have "trace ?q = trace s @ [Pingresp c]"
    by (simp add: on_pingreq_state)
  ultimately show
    "trace (timer_fire (next_handle s) ?p) =
       trace s @ [Pingresp c, StreamEnd c, EmitClientDisconnected c]"
    "stream_ended (heap (timer_fire (next_handle s) ?p) c)"
    "\<not> listeners (heap (timer_fire (next_handle s) ?p) c)"
    using closeConn_effects [of c None ?q] by simp_all
qed

text \<open>
  A connection right after \<open>serve\<close> and a session connected as \<open>c1\<close>: the same publish packet
  has the same effect on both.
\<close>

theorem handlers_before_connect_witness:
  "listeners (heap (final_state (run init [Accept])) 0) \<and>
   client_id (heap (final_state (run init [Accept])) 0) = None \<and>
   clients (final_state (run init [Accept])) = [] \<and>
   listeners (heap (final_state (run init [Accept, Packet 0 (Connect ''c1'' 10)])) 0) \<and>
   client_id (heap (final_state (run init [Accept, Packet 0 (Connect ''c1'' 10)])) 0)
     = Some ''c1'' \<and>
   clients (final_state (run init [Accept, Packet 0 (Connect ''c1'' 10)])) = [(''c1'', 0)] \<and>
   deliver 0 (Publish ''t'' ''m'') (final_state (run init [Accept])) =
     Inr ((final_state (run init [Accept]))
           \<lparr>trace := trace (final_state (run init [Accept])) @
                      [BusPublish ''t'' ''m'', EmitPublished 0 ''t'' ''m'']\<rparr>) \<and>
   deliver 0 (Publish ''t'' ''m'') (final_state (run init [Accept, Packet 0 (Connect ''c1'' 10)])) =
     Inr ((final_state (run init [Accept, Packet 0 (Connect ''c1'' 10)]))
           \<lparr>trace := trace (final_state (run init [Accept, Packet 0 (Connect ''c1'' 10)])) @
                      [BusPublish ''t'' ''m'', EmitPublished 0 ''t'' ''m'']\<rparr>) \<and>
   trace (final_state (run init [Accept, Packet 0 (Subscribe [(''t'', 1)] 7)])) =
     [BusSubscribe ''t'' 0] \<and>
   trace (final_state (run init [Accept, Packet 0 (Connect ''c1'' 10),
       Packet 0 (Subscribe [(''t'', 1)] 7)])) =
     [Connack 0 0, EmitClientConnected 0, BusSubscribe ''t'' 0]"
proof -
  let ?p = "final_state (run init [Accept])"
  let ?q = "final_state (run init [Accept, Packet 0 (Connect ''c1'' 10)])"
  have lp: "listeners (heap ?p 0)" by (simp add: eval_defs)
  have ip: "client_id (heap ?p 0) = None" by (simp add: eval_defs)
  have cp: "clients ?p = []" by (simp add: eval_defs)
  have lq: "listeners (heap ?q 0)" by (simp add: eval_defs)
  have iq: "client_id (heap ?q 0) = Some ''c1''" by (simp add: eval_defs)
  have cq: "clients ?q = [(''c1'', 0)]" by (simp add: eval_defs)
  from handlers_before_connect [OF lp, where topic = "''t''" and payload = "''m''"]
  have dp: "deliver 0 (Publish ''t'' ''m'') ?p =
      Inr (?p\<lparr>trace := trace ?p @ [BusPublish ''t'' ''m'', EmitPublished 0 ''t'' ''m'']\<rparr>)"
    by blast
  from handlers_before_connect [OF lq, where topic = "''t''" and payload = "''m''"]
  have dq: "deliver 0 (Publish ''t'' ''m'') ?q =
      Inr (?q\<lparr>trace := trace ?q @ [BusPublish ''t'' ''m'', EmitPublished 0 ''t'' ''m'']\<rparr>)"
    by blast
  have tp: "trace (final_state (run init [Accept, Packet 0 (Subscribe [(''t'', 1)] 7)])) =
     [BusSubscribe ''t'' 0]"
    by (simp add: eval_defs)
  have tq: "trace (final_state (run init [Accept, Packet 0 (Connect ''c1'' 10),
       Packet 0 (Subscribe [(''t'', 1)] 7)])) =
     [Connack 0 0, EmitClientConnected 0, BusSubscribe ''t'' 0]"
    by (simp add: eval_defs)
  show ?thesis
    by (rule conjI [OF lp conjI [OF ip conjI [OF cp conjI [OF lq conjI [OF iq conjI [OF cq
      conjI [OF dp conjI [OF dq conjI [OF tp tq]]]]]]]]])
qed

subsection \<open>The keys of the registry, as \<open>close\<close> lists them\<close>

lemma set_object_keys: "set (object_keys obj) = fst ` set obj"
  by (auto simp: object_keys_def)

lemma length_object_keys: "length (object_keys obj) = length obj"
proof -
  have "length [k \<leftarrow> map fst obj. array_index k \<noteq> None] +
        length [k \<leftarrow> map fst obj. \<not> array_index k \<noteq> None] = length (map fst obj)"
    by (rule sum_length_filter_compl)
  then show ?thesis by (simp add: object_keys_def)
qed

lemma distinct_object_keys: "distinct (map fst obj) \<Longrightarrow> distinct (object_keys obj)"
  by (auto simp: object_keys_def)

lemma object_keys_Nil: "object_keys obj = [] \<longleftrightarrow> obj = []"
  using length_object_keys [of obj] by (metis length_0_conv)

lemma plain_keys: "\<forall>k \<in> fst ` set obj. array_index k = None \<Longrightarrow> object_keys obj = map fst obj"
  by (simp add: object_keys_def filter_id_conv filter_empty_conv)


text \<open>
  With the ids \<open>x\<close> and then \<open>1\<close> sent on one connection, \<open>Object.keys\<close> lists \<open>1\<close> first:
  its task tears the client down and deletes the key \<open>1\<close>, and the task of \<open>x\<close> finds the
  client again. No task throws, and the session is torn down twice.
\<close>

lemma close_index_key_first:
  "clients (final_state (run init [Accept, Packet 0 (Connect ''x'' 10),
       Packet 0 (Connect ''1'' 10)])) = [(''x'', 0), (''1'', 0)] \<and>
   object_keys (clients (final_state (run init [Accept, Packet 0 (Connect ''x'' 10),
       Packet 0 (Connect ''1'' 10)]))) = [''1'', ''x''] \<and>
   raised (run init [Accept, Packet 0 (Connect ''x'' 10), Packet 0 (Connect ''1'' 10),
       Close (Some 7)]) = None \<and>
   trace (final_state (run init [Accept, Packet 0 (Connect ''x'' 10),
       Packet 0 (Connect ''1'' 10), Close (Some 7), Tick, Tick, ListenerClosed])) =
     [Connack 0 0, EmitClientConnected 0, Connack 0 0, EmitClientConnected 0,
      StreamEnd 0, EmitClientDisconnected 0, StreamEnd 0, EmitClientDisconnected 0,
      ListenerStop, Called 7]"
  by (simp add: eval_defs)

text \<open>A session that connects with the id \<open>__proto__\<close> is not registered.\<close>

lemma connect_proto_not_registered:
  "clients (final_state (run init [Accept, Packet 0 (Connect ''__proto__'' 10)])) = [] \<and>
   client_id (heap (final_state (run init [Accept, Packet 0 (Connect ''__proto__'' 10)])) 0)
     = Some ''__proto__''"
  by (simp add: eval_defs)

subsection \<open>\<open>close\<close> without a callback on a stopped listener\<close>

text \<open>
  The tasks of \<open>close\<close> on any state: either all of them run, each deferring the callback
  of the join once, or one of them finds no client under its key and raises a TypeError,
  fewer callbacks than tasks having been deferred. They leave the joins and the listener
  alone.
\<close>

lemma run_tasks_closeConn:
  "case run_tasks (map TCloseConn ks) cb s of
     Inr s' \<Rightarrow> tickq s' = tickq s @ replicate (length ks) cb \<and>
              joins s' = joins s \<and> listening s' = listening s
   | Inl (e, s') \<Rightarrow> e = TypeError \<and> (\<exists>m < length ks. tickq s' = tickq s @ replicate m cb) \<and>
              joins s' = joins s \<and> listening s' = listening s"
proof (induction ks arbitrary: s)
  case Nil
  show ?case by simp
next
  case (Cons k ks)
  show ?case
  proof (cases "map_of (clients s) k")
    case None
    then show ?thesis by simp
  next
    case (Some c)
    let ?s1 = "closeConn c (Some cb) s"
    have f: "tickq ?s1 = tickq s @ [cb]" "joins ?s1 = joins s" "listening ?s1 = listening s"
      using closeConn_effects [of c "Some cb" s] by (simp_all add: closeConn_frame)
    show ?thesis
    proof (cases "run_tasks (map TCloseConn ks) cb ?s1")
      case (Inl x)
      obtain e s' where x: "x = (e, s')" by (cases x)
      from Cons.IH [where s = ?s1] Inl x obtain m where
        "e = TypeError" "m < length ks" "tickq s' = tickq ?s1 @ replicate m cb"
        "joins s' = joins ?s1" "listening s' = listening ?s1"
        by auto
      then have "Suc m < length (k # ks)" "tickq s' = tickq s @ replicate (Suc m) cb"
        by (simp_all add: f)
      then have "\<exists>m < length (k # ks). tickq s' = tickq s @ replicate m cb" by blast
      with Some Inl x \<open>e = TypeError\<close> \<open>joins s' = joins ?s1\<close> \<open>listening s' = listening ?s1\<close>
      show ?thesis by (simp add: f)
    next
      case (Inr s')
      from Cons.IH [where s = ?s1] Inr have
        "tickq s' = tickq ?s1 @ replicate (length ks) cb"
        "joins s' = joins ?s1" "listening s' = listening ?s1"
        by auto
      with Some Inr show ?thesis by (simp add: f)
    qed
  qed
qed

lemma completions_waiting:
  "joins s j = Some (m, fin) \<Longrightarrow> k < m \<Longrightarrow> raised (completions k j s) = None"
proof (induction k arbitrary: s m)
  case 0
  then show ?case by (simp add: raised_def)
next
  case (Suc k)
  let ?s1 = "s\<lparr>joins := (joins s)(j \<mapsto> (m - 1, fin))\<rparr>"
  from Suc.prems have jd: "join_done j s = Inr ?s1"
    by (simp add: join_done_def)
  have "joins ?s1 j = Some (m - 1, fin)" by simp
  moreover from Suc.prems have "k < m - 1" by simp
  ultimately have "raised (completions k j ?s1) = None" by (rule Suc.IH)
  with jd show ?case by simp
qed

lemma completions_close_raises:
  "joins s j = Some (m, FClose None) \<Longrightarrow> \<not> listening s \<Longrightarrow> 0 < m \<Longrightarrow>
   raised (completions m j s) = Some TypeError"
proof (induction m arbitrary: s)
  case 0
  then show ?case by simp
next
  case (Suc m)
  show ?case
  proof (cases "m = 0")
    case True
    with Suc.prems have "join_done j s = Inl (TypeError, s\<lparr>joins := (joins s)(j := None)\<rparr>)"
      by (simp add: join_done_def server_close_def call_user_def)
    then show ?thesis by (simp add: raised_def)
  next
    case False
    let ?s1 = "s\<lparr>joins := (joins s)(j \<mapsto> (m, FClose None))\<rparr>"
    from Suc.prems False have jd: "join_done j s = Inr ?s1"
      by (simp add: join_done_def)
    have "joins ?s1 j = Some (m, FClose None)" by simp
    moreover from Suc.prems have "\<not> listening ?s1" by simp
    moreover from False have "0 < m" by simp
    ultimately have "raised (completions m j ?s1) = Some TypeError" by (rule Suc.IH)
    with jd show ?thesis by simp
  qed
qed

text \<open>
  A connection accepted before a first \<open>close\<close> connects after it, so that a session
  is registered while the listener is stopped. A second \<open>close\<close>, without a callback,
  then returns normally; the TypeError is raised by the next tick.
\<close>

theorem close_without_callback_counterexample:
  "\<not> listening (final_state (run init [Accept, Close (Some 1), Packet 0 (Connect ''a'' 10)])) \<and>
   raised (run init [Accept, Close (Some 1), Packet 0 (Connect ''a'' 10), Close None]) = None \<and>
   raised (run init [Accept, Close (Some 1), Packet 0 (Connect ''a'' 10), Close None, Tick])
     = Some TypeError"
  by (simp add: eval_defs)

text \<open>
  Claim C10, amended. When the listener is already stopped, the completion function of a
  \<open>close\<close> without a callback raises a TypeError whenever it runs: stopping the listener
  throws, and the catch branch calls the undefined callback. With an empty registry it
  runs inside \<open>close\<close>, and \<open>close\<close> itself raises the TypeError. With a non-empty
  registry it does not run inside \<open>close\<close>: whether \<open>close\<close> returns or throws, the join
  is still pending and the listener untouched. If \<open>close\<close> returns, it has deferred one
  callback per registry key; no TypeError is raised while fewer of them have run, and the
  last one raises it. If \<open>close\<close> throws, what it throws is the TypeError of a task that
  found no session, and fewer callbacks than keys are deferred, so that the completion
  function never runs.
\<close>

theorem close_without_callback:
  assumes "\<not> listening s"
  shows "run_final (FClose None) s = Inl (TypeError, s) \<and>
     (clients s = [] \<longrightarrow> close None s = Inl (TypeError, s)) \<and>
     (clients s \<noteq> [] \<longrightarrow>
        joins (final_state (close None s)) (next_join s)
          = Some (length (clients s), FClose None) \<and>
        \<not> listening (final_state (close None s)) \<and>
        (\<forall>s1. close None s = Inr s1 \<longrightarrow>
           tickq s1 = tickq s @ replicate (length (clients s)) (JoinCb (next_join s)) \<and>
           (\<forall>k < length (clients s). raised (completions k (next_join s) s1) = None) \<and>
           raised (completions (length (clients s)) (next_join s) s1) = Some TypeError) \<and>
        (\<forall>e s1. close None s = Inl (e, s1) \<longrightarrow>
           e = TypeError \<and>
           (\<exists>m < length (clients s). tickq s1 = tickq s @ replicate m (JoinCb (next_join s)))))"
proof (intro conjI impI)
  from assms show f: "run_final (FClose None) s = Inl (TypeError, s)"
    by (simp add: server_close_def call_user_def)
  show "close None s = Inl (TypeError, s)" if "clients s = []"
  proof -
    from that have "object_keys (clients s) = []" by (simp add: object_keys_Nil)
    with f show ?thesis by (simp add: close_def parallel_def)
  qed
next
  assume ne: "clients s \<noteq> []"
  let ?j = "next_join s"
  let ?n = "length (clients s)"
  let ?ks = "object_keys (clients s)"
  let ?u = "s\<lparr>joins := (joins s)(?j \<mapsto> (?n, FClose None)), next_join := Suc ?j\<rparr>"
  let ?r = "run_tasks (map TCloseConn ?ks) (JoinCb ?j) ?u"
  from ne have "?ks \<noteq> []" by (simp add: object_keys_Nil)
  then have cl: "close None s = ?r"
    by (simp add: close_def parallel_def length_object_keys)
  note rt = run_tasks_closeConn [where ks = ?ks and cb = "JoinCb ?j" and s = ?u]
  have fr: "joins (final_state ?r) = joins ?u" "listening (final_state ?r) = listening ?u"
    using rt by (auto simp: final_state_def split: sum.splits)
  from fr(1) show "joins (final_state (close None s)) ?j = Some (?n, FClose None)"
    by (simp add: cl)
  from fr(2) assms show nl: "\<not> listening (final_state (close None s))"
    by (simp add: cl)
  show "\<forall>s1. close None s = Inr s1 \<longrightarrow>
           tickq s1 = tickq s @ replicate ?n (JoinCb ?j) \<and>
           (\<forall>k < ?n. raised (completions k ?j s1) = None) \<and>
           raised (completions ?n ?j s1) = Some TypeError"
  proof (intro allI impI)
    fix s1 assume r: "close None s = Inr s1"
    with cl have rr: "?r = Inr s1" by simp
    from rt have q: "tickq s1 = tickq s @ replicate ?n (JoinCb ?j)"
      and j: "joins s1 = joins ?u" and l: "listening s1 = listening ?u"
      unfolding rr by (simp_all add: length_object_keys)
    from j have j1: "joins s1 ?j = Some (?n, FClose None)" by simp
    from l assms have l1: "\<not> listening s1" by simp
    from ne have pos: "0 < ?n" by simp
    have w: "\<forall>k < ?n. raised (completions k ?j s1) = None"
      using completions_waiting [OF j1] by blast
    from j1 l1 pos have "raised (completions ?n ?j s1) = Some TypeError"
      by (rule completions_close_raises)
    with q w show "tickq s1 = tickq s @ replicate ?n (JoinCb ?j) \<and>
           (\<forall>k < ?n. raised (completions k ?j s1) = None) \<and>
           raised (completions ?n ?j s1) = Some TypeError"
      by blast
  qed
  show "\<forall>e s1. close None s = Inl (e, s1) \<longrightarrow>
           e = TypeError \<and> (\<exists>m < ?n. tickq s1 = tickq s @ replicate m (JoinCb ?j))"
  proof (intro allI impI)
    fix e s1 assume r: "close None s = Inl (e, s1)"
    with cl have rr: "?r = Inl (e, s1)" by simp
    from rt show "e = TypeError \<and> (\<exists>m < ?n. tickq s1 = tickq s @ replicate m (JoinCb ?j))"
      unfolding rr by (simp add: length_object_keys)
  qed
qed

lemma raised_None: "raised r = None \<Longrightarrow> \<exists>s1. r = Inr s1"
  by (cases r) (auto simp: raised_def)

text \<open>
  A stopped listener with one session, with a stale key, and with an empty registry.
\<close>

theorem close_without_callback_witness:
  "\<not> listening (final_state (run init [Accept, Close (Some 1), Packet 0 (Connect ''a'' 10)])) \<and>
   clients (final_state (run init [Accept, Close (Some 1), Packet 0 (Connect ''a'' 10)]))
     = [(''a'', 0)] \<and>
   raised (close None (final_state (run init [Accept, Close (Some 1),
       Packet 0 (Connect ''a'' 10)]))) = None \<and>
   (\<exists>s1. close None (final_state (run init [Accept, Close (Some 1), Packet 0 (Connect ''a'' 10)]))
           = Inr s1 \<and>
      raised (completions
        (length (clients (final_state (run init [Accept, Close (Some 1), Packet 0 (Connect ''a'' 10)]))))
        (next_join (final_state (run init [Accept, Close (Some 1), Packet 0 (Connect ''a'' 10)])))
        s1) = Some TypeError) \<and>
   \<not> listening (final_state (run init [Accept, Close (Some 1), Packet 0 (Connect ''a'' 10),
       Packet 0 (Connect ''b'' 10)])) \<and>
   raised (close None (final_state (run init [Accept, Close (Some 1),
       Packet 0 (Connect ''a'' 10), Packet 0 (Connect ''b'' 10)]))) = Some TypeError \<and>
   joins (final_state (close None (final_state (run init [Accept, Close (Some 1),
       Packet 0 (Connect ''a'' 10), Packet 0 (Connect ''b'' 10)]))))
     (next_join (final_state (run init [Accept, Close (Some 1),
       Packet 0 (Connect ''a'' 10), Packet 0 (Connect ''b'' 10)])))
     = Some (length (clients (final_state (run init [Accept, Close (Some 1),
       Packet 0 (Connect ''a'' 10), Packet 0 (Connect ''b'' 10)]))), FClose None) \<and>
   \<not> listening (final_state (run init [Close (Some 1)])) \<and>
   clients (final_state (run init [Close (Some 1)])) = [] \<and>
   close None (final_state (run init [Close (Some 1)]))
     = Inl (TypeError, final_state (run init [Close (Some 1)]))"
proof -
  let ?s = "final_state (run init [Accept, Close (Some 1), Packet 0 (Connect ''a'' 10)])"
  let ?t = "final_state (run init [Accept, Close (Some 1), Packet 0 (Connect ''a'' 10),
       Packet 0 (Connect ''b'' 10)])"
  let ?u = "final_state (run init [Close (Some 1)])"
  have l: "\<not> listening ?s" by (simp add: eval_defs)
  have c: "clients ?s = [(''a'', 0)]" by (simp add: eval_defs)
  have r: "raised (close None ?s) = None" by (simp add: eval_defs)
  from c have ne: "clients ?s \<noteq> []" by simp
  from r obtain s1 where s1: "close None ?s = Inr s1" using raised_None by blast
  with close_without_callback [OF l] ne
  have "raised (completions (length (clients ?s)) (next_join ?s) s1) = Some TypeError"
    by blast
  with s1 have e: "\<exists>s1. close None ?s = Inr s1 \<and>
      raised (completions (length (clients ?s)) (next_join ?s) s1) = Some TypeError"
    by blast
  have lt: "\<not> listening ?t" by (simp add: eval_defs)
  have rt: "raised (close None ?t) = Some TypeError" by (simp add: eval_defs)
  have "clients ?t \<noteq> []" by (simp add: eval_defs)
  with close_without_callback [OF lt]
  have jt: "joins (final_state (close None ?t)) (next_join ?t)
      = Some (length (clients ?t), FClose None)"
    by blast
  have l0: "\<not> listening ?u" by (simp add: eval_defs)
  have c0: "clients ?u = []" by (simp add: eval_defs)
  from close_without_callback [OF l0] c0 have e0: "close None ?u = Inl (TypeError, ?u)"
    by blast
  show ?thesis
    by (rule conjI [OF l conjI [OF c conjI [OF r conjI [OF e conjI [OF lt conjI [OF rt
      conjI [OF jt conjI [OF l0 conjI [OF c0 e0]]]]]]]]])
qed

subsection \<open>\<open>close\<close> on a registry keyed by the current ids\<close>

lemma map_filter_cong':
  "\<forall>x \<in> set xs. f x = g x \<Longrightarrow> List.map_filter f xs = List.map_filter g xs"
  by (induction xs) (auto simp: map_filter_simps split: option.splits)

lemma run_tasks_close:
  assumes "distinct ks"
    and "\<forall>k \<in> set ks. \<exists>c. map_of (clients s) k = Some c \<and> client_id (heap s c) = Some k"
  shows "\<exists>s'. run_tasks (map TCloseConn ks) cb s = Inr s' \<and>
           tickq s' = tickq s @ replicate (length ks) cb \<and>
           joins s' = joins s \<and> next_join s' = next_join s \<and>
           listening s' = listening s \<and> close_waiters s' = close_waiters s \<and>
           trace s' = trace s @
             concat (map (\<lambda>c. [StreamEnd c, EmitClientDisconnected c])
               (List.map_filter (map_of (clients s)) ks))"
  using assms
proof (induction ks arbitrary: s)
  case Nil
  then show ?case by (simp add: map_filter_simps)
next
  case (Cons k ks)
  from Cons.prems(2) obtain c where
    kc: "map_of (clients s) k = Some c" "client_id (heap s c) = Some k"
    by auto
  let ?s1 = "closeConn c (Some cb) s"
  from kc have t: "run_task (TCloseConn k) cb s = Inr ?s1" by simp
  from Cons.prems(1) have d: "distinct ks" by simp
  have same: "map_of (clients ?s1) k' = map_of (clients s) k'" if "k' \<in> set ks" for k'
  proof -
    from that Cons.prems(1) have "k' \<noteq> k" by auto
    with kc(2) show ?thesis by (rule closeConn_other_keys)
  qed
  have "\<forall>k' \<in> set ks. \<exists>c'. map_of (clients ?s1) k' = Some c' \<and> client_id (heap ?s1 c') = Some k'"
  proof
    fix k' assume m: "k' \<in> set ks"
    with Cons.prems(2) obtain c' where
      "map_of (clients s) k' = Some c'" "client_id (heap s c') = Some k'" by auto
    with same [OF m]
    show "\<exists>c'. map_of (clients ?s1) k' = Some c' \<and> client_id (heap ?s1 c') = Some k'"
      by (simp add: closeConn_frame)
  qed
  from Cons.IH [OF d this] obtain s' where s':
    "run_tasks (map TCloseConn ks) cb ?s1 = Inr s'"
    "tickq s' = tickq ?s1 @ replicate (length ks) cb"
    "joins s' = joins ?s1" "next_join s' = next_join ?s1"
    "listening s' = listening ?s1" "close_waiters s' = close_waiters ?s1"
    "trace s' = trace ?s1 @ concat (map (\<lambda>c. [StreamEnd c, EmitClientDisconnected c])
        (List.map_filter (map_of (clients ?s1)) ks))"
    by blast
  from same have "List.map_filter (map_of (clients ?s1)) ks = List.map_filter (map_of (clients s)) ks"
    by (intro map_filter_cong') simp
  with s' t kc show ?case
    by (simp add: closeConn_frame closeConn_effects replicate_append_same map_filter_simps)
qed

lemma registry_ok_lookup:
  "registry_ok s \<Longrightarrow>
   \<forall>k \<in> set (object_keys (clients s)).
     \<exists>c. map_of (clients s) k = Some c \<and> client_id (heap s c) = Some k"
  by (fastforce simp: registry_ok_def set_object_keys)

lemma close_registered:
  assumes "registry_ok s" and "clients s \<noteq> []"
  shows "\<exists>s1. close cbo s = Inr s1 \<and>
           tickq s1 = tickq s @ replicate (length (clients s)) (JoinCb (next_join s)) \<and>
           joins s1 (next_join s) = Some (length (clients s), FClose cbo) \<and>
           listening s1 = listening s \<and> close_waiters s1 = close_waiters s \<and>
           trace s1 = trace s @
             concat (map (\<lambda>c. [StreamEnd c, EmitClientDisconnected c])
               (List.map_filter (map_of (clients s)) (object_keys (clients s))))"
proof -
  let ?j = "next_join s"
  let ?ks = "object_keys (clients s)"
  let ?u = "s\<lparr>joins := (joins s)(?j \<mapsto> (length (clients s), FClose cbo)), next_join := Suc ?j\<rparr>"
  from assms(1) have d: "distinct ?ks" by (simp add: registry_ok_def distinct_object_keys)
  from registry_ok_lookup [OF assms(1)]
  have "\<forall>k \<in> set ?ks. \<exists>c. map_of (clients ?u) k = Some c \<and> client_id (heap ?u c) = Some k"
    by simp
  from run_tasks_close [OF d this, of "JoinCb ?j"] obtain s1 where
    "run_tasks (map TCloseConn ?ks) (JoinCb ?j) ?u = Inr s1"
    "tickq s1 = tickq ?u @ replicate (length ?ks) (JoinCb ?j)"
    "joins s1 = joins ?u" "listening s1 = listening ?u" "close_waiters s1 = close_waiters ?u"
    "trace s1 = trace ?u @ concat (map (\<lambda>c. [StreamEnd c, EmitClientDisconnected c])
        (List.map_filter (map_of (clients ?u)) ?ks))"
    by blast
  moreover from assms(2) have "?ks \<noteq> []" by (simp add: object_keys_Nil)
  ultimately show ?thesis by (simp add: close_def parallel_def length_object_keys)
qed

lemma completions_all:
  "joins s j = Some (m, fin) \<Longrightarrow> 0 < m \<Longrightarrow>
   completions m j s = run_final fin (s\<lparr>joins := (joins s)(j := None)\<rparr>)"
proof (induction m arbitrary: s)
  case 0
  then show ?case by simp
next
  case (Suc m)
  show ?case
  proof (cases "m = 0")
    case True
    let ?r = "run_final fin (s\<lparr>joins := (joins s)(j := None)\<rparr>)"
    from Suc.prems True have jd: "join_done j s = ?r"
      by (simp add: join_done_def)
    have "completions (Suc 0) j s = ?r"
    proof (cases ?r)
      case (Inl a)
      with jd show ?thesis by simp
    next
      case (Inr b)
      with jd show ?thesis by simp
    qed
    then show ?thesis unfolding True .
  next
    case False
    let ?s1 = "s\<lparr>joins := (joins s)(j \<mapsto> (m, fin))\<rparr>"
    from Suc.prems False have jd: "join_done j s = Inr ?s1"
      by (simp add: join_done_def)
    have j1: "joins ?s1 j = Some (m, fin)" by simp
    from False have m: "0 < m" by simp
    have u: "?s1\<lparr>joins := (joins ?s1)(j := None)\<rparr> = s\<lparr>joins := (joins s)(j := None)\<rparr>"
      by simp
    from jd have "completions (Suc m) j s = completions m j ?s1" by simp
    also from j1 m have "\<dots> = run_final fin (?s1\<lparr>joins := (joins ?s1)(j := None)\<rparr>)"
      by (rule Suc.IH)
    finally show ?thesis unfolding u .
  qed
qed

text \<open>
  What \<open>close\<close> does in a state whose registry is keyed by the current ids: every
  registered session is torn down at once, in the order of \<open>Object.keys\<close>, and when the deferred callbacks of all the
  teardowns have run, the listener is stopped with the callback, or, if it was stopped
  already, the callback is called.
\<close>

lemma close_with_callback:
  assumes "registry_ok s"
  shows "\<exists>s1 s2. close (Some k) s = Inr s1 \<and>
           completions (length (clients s)) (next_join s) s1 = Inr s2 \<and>
           trace s2 = trace s @
              concat (map (\<lambda>c. [StreamEnd c, EmitClientDisconnected c])
                (List.map_filter (map_of (clients s)) (object_keys (clients s)))) @
              [if listening s then ListenerStop else Called k] \<and>
           close_waiters s2 = close_waiters s @ (if listening s then [k] else [])"
proof (cases "clients s = []")
  case True
  then show ?thesis
    by (simp add: close_def parallel_def server_close_def call_user_def emit_def
        object_keys_def map_filter_simps)
next
  case False
  from close_registered [OF assms False, of "Some k"] obtain s1 where s1:
    "close (Some k) s = Inr s1"
    "joins s1 (next_join s) = Some (length (clients s), FClose (Some k))"
    "listening s1 = listening s" "close_waiters s1 = close_waiters s"
    "trace s1 = trace s @
       concat (map (\<lambda>c. [StreamEnd c, EmitClientDisconnected c])
         (List.map_filter (map_of (clients s)) (object_keys (clients s))))"
    by blast
  from False have "0 < length (clients s)" by simp
  with s1(2) have "completions (length (clients s)) (next_join s) s1 =
      run_final (FClose (Some k)) (s1\<lparr>joins := (joins s1)(next_join s := None)\<rparr>)"
    by (rule completions_all)
  with s1 show ?thesis
    by (simp add: server_close_def call_user_def emit_def)
qed

subsection \<open>\<open>close\<close> on a registry with a stale key\<close>

text \<open>
  Claim C3. The claim does not hold of the code. A connection sends two connect packets,
  with the ids \<open>a\<close> and \<open>b\<close>: the registry then has two keys for one client, whose id is
  \<open>b\<close>. \<open>close\<close> tears the client down under the key \<open>a\<close>, which deletes the key \<open>b\<close>; the
  task of the key \<open>b\<close> finds \<open>undefined\<close>, and \<open>closeConn\<close> raises a TypeError. The join
  never completes: the listener is not stopped and the callback is never called.
\<close>

theorem close_stale_key_raises:
  "raised (run init [Accept, Packet 0 (Connect ''a'' 10), Packet 0 (Connect ''b'' 10)]) = None \<and>
   clients (final_state (run init [Accept, Packet 0 (Connect ''a'' 10),
       Packet 0 (Connect ''b'' 10)])) = [(''a'', 0), (''b'', 0)] \<and>
   raised (run init [Accept, Packet 0 (Connect ''a'' 10), Packet 0 (Connect ''b'' 10),
       Close (Some 7)]) = Some TypeError \<and>
   trace (final_state (run (final_state (run init [Accept, Packet 0 (Connect ''a'' 10),
       Packet 0 (Connect ''b'' 10), Close (Some 7)])) [Tick, Tick, ListenerClosed])) =
     [Connack 0 0, EmitClientConnected 0, Connack 0 0, EmitClientConnected 0,
      StreamEnd 0, EmitClientDisconnected 0] \<and>
   tickq (final_state (run (final_state (run init [Accept, Packet 0 (Connect ''a'' 10),
       Packet 0 (Connect ''b'' 10), Close (Some 7)])) [Tick, Tick, ListenerClosed])) = [] \<and>
   listening (final_state (run (final_state (run init [Accept, Packet 0 (Connect ''a'' 10),
       Packet 0 (Connect ''b'' 10), Close (Some 7)])) [Tick, Tick, ListenerClosed]))"
  by (simp add: eval_defs)

subsection \<open>\<open>closeConn\<close> on a session with the empty client id\<close>

text \<open>
  Claim C4. The claim does not hold of the code. A session connects with the empty
  string as its client id and disconnects: \<open>closeConn\<close> takes the id for absent, so the
  session stays in the registry and its timeout stays pending; the timeout runs later and
  \<open>closeConn\<close> emits \<open>clientDisconnected\<close> a second time.
\<close>

theorem closeConn_empty_id:
  "client_id (heap (final_state (run init [Accept, Packet 0 (Connect [] 10)])) 0) = Some [] \<and>
   clients (closeConn 0 None (final_state (run init [Accept, Packet 0 (Connect [] 10)])))
     = [([], 0)] \<and>
   timers (closeConn 0 None (final_state (run init [Accept, Packet 0 (Connect [] 10)]))) 0
     = Some \<lparr>owner = 0, armed = 0, delay = Some 12500\<rparr> \<and>
   trace (final_state (run init [Accept, Packet 0 (Connect [] 10), Packet 0 Disconnect,
       Elapse 12500, TimerFire 0])) =
     [Connack 0 0, EmitClientConnected 0, StreamEnd 0, EmitClientDisconnected 0,
      StreamEnd 0, EmitClientDisconnected 0]"
  by (simp add: eval_defs)

text \<open>
  The same happens to a stale key: after two connect packets with different ids on one
  connection, \<open>closeConn\<close> deletes the key of the second id and leaves the closed session
  registered under the first.
\<close>

lemma closeConn_stale_key:
  "clients (final_state (run init [Accept, Packet 0 (Connect ''a'' 10),
       Packet 0 (Connect ''b'' 10), Packet 0 Disconnect])) = [(''a'', 0)] \<and>
   stream_ended (heap (final_state (run init [Accept, Packet 0 (Connect ''a'' 10),
       Packet 0 (Connect ''b'' 10), Packet 0 Disconnect])) 0)"
  by (simp add: eval_defs)

subsection \<open>Teardown of a session with a non-empty id\<close>

text \<open>
  For a session whose id is a non-empty string, \<open>closeConn\<close> removes the registry entry of
  that id and cancels the timeout the session holds, and a second call changes neither
  the registry nor the timers. For a session without an id it leaves both alone. In every
  case it ends the stream, detaches the handlers, defers the callback, if given, once, and
  emits \<open>clientDisconnected\<close>.
\<close>

theorem closeConn_teardown:
  "(client_id (heap s c) = Some x \<and> x \<noteq> [] \<longrightarrow>
      map_of (clients (closeConn c cbo s)) x = None \<and>
      (\<forall>h. timer (heap s c) = Some h \<longrightarrow> timers (closeConn c cbo s) h = None) \<and>
      clients (closeConn c cbo' (closeConn c cbo s)) = clients (closeConn c cbo s) \<and>
      timers (closeConn c cbo' (closeConn c cbo s)) = timers (closeConn c cbo s)) \<and>
   (client_id (heap s c) = None \<longrightarrow>
      clients (closeConn c cbo s) = clients s \<and> timers (closeConn c cbo s) = timers s) \<and>
   stream_ended (heap (closeConn c cbo s) c) \<and> \<not> listeners (heap (closeConn c cbo s) c) \<and>
   tickq (closeConn c cbo s) = tickq s @ (case cbo of None \<Rightarrow> [] | Some cb \<Rightarrow> [cb]) \<and>
   trace (closeConn c cbo s) = trace s @ [StreamEnd c, EmitClientDisconnected c]"
proof (intro conjI impI)
  assume a: "client_id (heap s c) = Some x \<and> x \<noteq> []"
  then have r: "clients (closeConn c cbo s) = AList.delete x (clients s)"
    "timers (closeConn c cbo s) =
       (case timer (heap s c) of None \<Rightarrow> timers s | Some h \<Rightarrow> (timers s)(h := None))"
    using closeConn_registered [of s c x cbo] by simp_all
  show "map_of (clients (closeConn c cbo s)) x = None"
    by (simp add: r AList.delete_conv')
  show "\<forall>h. timer (heap s c) = Some h \<longrightarrow> timers (closeConn c cbo s) h = None"
    by (simp add: r)
  from a have i: "client_id (heap (closeConn c cbo s) c) = Some x \<and> x \<noteq> []"
    by (simp add: closeConn_frame)
  have t: "timer (heap (closeConn c cbo s) c) = timer (heap s c)"
    by (simp add: closeConn_def Let_def emit_def upd_client_def next_def clearTimeout_def
        split: option.splits)
  from i have r2: "clients (closeConn c cbo' (closeConn c cbo s))
      = AList.delete x (clients (closeConn c cbo s))"
    "timers (closeConn c cbo' (closeConn c cbo s)) =
       (case timer (heap (closeConn c cbo s) c) of None \<Rightarrow> timers (closeConn c cbo s)
        | Some h \<Rightarrow> (timers (closeConn c cbo s))(h := None))"
    using closeConn_registered [of "closeConn c cbo s" c x cbo'] by simp_all
  show "clients (closeConn c cbo' (closeConn c cbo s)) = clients (closeConn c cbo s)"
    by (simp add: r2 r AList.delete_idem)
  show "timers (closeConn c cbo' (closeConn c cbo s)) = timers (closeConn c cbo s)"
    by (simp add: r2 t r split: option.splits)
next
  assume "client_id (heap s c) = None"
  then show "clients (closeConn c cbo s) = clients s" "timers (closeConn c cbo s) = timers s"
    using closeConn_no_id [of s c cbo] by simp_all
next
  show "stream_ended (heap (closeConn c cbo s) c)" "\<not> listeners (heap (closeConn c cbo s) c)"
    "tickq (closeConn c cbo s) = tickq s @ (case cbo of None \<Rightarrow> [] | Some cb \<Rightarrow> [cb])"
    "trace (closeConn c cbo s) = trace s @ [StreamEnd c, EmitClientDisconnected c]"
    using closeConn_effects [of c cbo s] by simp_all
qed

theorem closeConn_teardown_witness:
  "client_id (heap (final_state (run init [Accept, Packet 0 (Connect ''c1'' 10)])) 0) = Some ''c1'' \<and>
   ''c1'' \<noteq> [] \<and>
   timer (heap (final_state (run init [Accept, Packet 0 (Connect ''c1'' 10)])) 0) = Some 0 \<and>
   timers (final_state (run init [Accept, Packet 0 (Connect ''c1'' 10)])) 0
     = Some \<lparr>owner = 0, armed = 0, delay = Some 12500\<rparr> \<and>
   map_of (clients (final_state (run init [Accept, Packet 0 (Connect ''c1'' 10)]))) ''c1'' = Some 0 \<and>
   map_of (clients (closeConn 0 (Some (UserCb 3))
     (final_state (run init [Accept, Packet 0 (Connect ''c1'' 10)])))) ''c1'' = None \<and>
   timers (closeConn 0 (Some (UserCb 3))
     (final_state (run init [Accept, Packet 0 (Connect ''c1'' 10)]))) 0 = None \<and>
   tickq (closeConn 0 (Some (UserCb 3))
     (final_state (run init [Accept, Packet 0 (Connect ''c1'' 10)]))) = [UserCb 3] \<and>
   client_id (heap (serve init) 0) = None \<and>
   clients (closeConn 0 None (serve init)) = clients (serve init)"
proof -
  let ?s = "final_state (run init [Accept, Packet 0 (Connect ''c1'' 10)])"
  have i: "client_id (heap ?s 0) = Some ''c1''" by (simp add: eval_defs)
  have n: "''c1'' \<noteq> []" by simp
  have h: "timer (heap ?s 0) = Some 0" by (simp add: eval_defs)
  have t: "timers ?s 0 = Some \<lparr>owner = 0, armed = 0, delay = Some 12500\<rparr>"
    by (simp add: eval_defs)
  have m: "map_of (clients ?s) ''c1'' = Some 0" by (simp add: eval_defs)
  have q: "tickq ?s = []" by (simp add: eval_defs)
  note w = closeConn_teardown [where s = "?s" and c = 0 and x = "''c1''"
      and cbo = "Some (UserCb 3)"]
  from w i n have a: "map_of (clients (closeConn 0 (Some (UserCb 3)) ?s)) ''c1'' = None"
    by blast
  from w i n h have b: "timers (closeConn 0 (Some (UserCb 3)) ?s) 0 = None"
    by blast
  from w q have d: "tickq (closeConn 0 (Some (UserCb 3)) ?s) = [UserCb 3]"
    by simp
  have p: "client_id (heap (serve init) 0) = None" by (simp add: eval_defs)
  from closeConn_teardown [where s = "serve init" and c = 0 and cbo = None] p
  have e: "clients (closeConn 0 None (serve init)) = clients (serve init)"
    by blast
  show ?thesis
    by (rule conjI [OF i conjI [OF n conjI [OF h conjI [OF t conjI [OF m conjI [OF a
      conjI [OF b conjI [OF d conjI [OF p e]]]]]]]]])
qed

text \<open>
  Two sessions, registered under their ids, and a call of \<open>close\<close> with a callback: both
  are torn down, the listener is stopped and its \<open>close\<close> event calls the callback.
\<close>

theorem close_calls_back_witness:
  "registry_ok (final_state (run init [Accept, Packet 0 (Connect ''a'' 10), Accept,
       Packet 1 (Connect ''b'' 10)])) \<and>
   trace (final_state (run init [Accept, Packet 0 (Connect ''a'' 10), Accept,
       Packet 1 (Connect ''b'' 10), Close (Some 7), Tick, Tick, ListenerClosed])) =
     [Connack 0 0, EmitClientConnected 0, Connack 1 0, EmitClientConnected 1,
      StreamEnd 0, EmitClientDisconnected 0, StreamEnd 1, EmitClientDisconnected 1,
      ListenerStop, Called 7] \<and>
   (\<exists>s1 s2. close (Some 7) (final_state (run init [Accept, Packet 0 (Connect ''a'' 10), Accept,
       Packet 1 (Connect ''b'' 10)])) = Inr s1 \<and>
      completions
        (length (clients (final_state (run init [Accept, Packet 0 (Connect ''a'' 10), Accept,
          Packet 1 (Connect ''b'' 10)]))))
        (next_join (final_state (run init [Accept, Packet 0 (Connect ''a'' 10), Accept,
          Packet 1 (Connect ''b'' 10)]))) s1 = Inr s2 \<and>
      close_waiters s2 =
        close_waiters (final_state (run init [Accept, Packet 0 (Connect ''a'' 10), Accept,
          Packet 1 (Connect ''b'' 10)])) @
        (if listening (final_state (run init [Accept, Packet 0 (Connect ''a'' 10), Accept,
          Packet 1 (Connect ''b'' 10)])) then [7] else []))"
proof -
  let ?s = "final_state (run init [Accept, Packet 0 (Connect ''a'' 10), Accept,
       Packet 1 (Connect ''b'' 10)])"
  have k: "registry_ok ?s" by (simp add: registry_ok_def eval_defs)
  have t: "trace (final_state (run init [Accept, Packet 0 (Connect ''a'' 10), Accept,
       Packet 1 (Connect ''b'' 10), Close (Some 7), Tick, Tick, ListenerClosed])) =
     [Connack 0 0, EmitClientConnected 0, Connack 1 0, EmitClientConnected 1,
      StreamEnd 0, EmitClientDisconnected 0, StreamEnd 1, EmitClientDisconnected 1,
      ListenerStop, Called 7]"
    by (simp add: eval_defs)
  from close_with_callback [OF k, of 7]
  have e: "\<exists>s1 s2. close (Some 7) ?s = Inr s1 \<and>
      completions (length (clients ?s)) (next_join ?s) s1 = Inr s2 \<and>
      close_waiters s2 = close_waiters ?s @ (if listening ?s then [7] else [])"
    by blast
  show ?thesis by (rule conjI [OF k conjI [OF t e]])
qed

end
